theory Spec2Isabelle
  imports Main "HOL-Library.List_Lexorder"
begin

section \<open>Text\<close>

text \<open>
  A Python \<open>str\<close> is a sequence of Unicode code points; a code point is a natural
  number here, so that the glyphs the scripts single out (U+2015, U+2212, U+FF0D, the
  corner brackets U+3010 and U+3011) are characters like any other. \<open>ascii\<close> embeds
  an ASCII literal.
\<close>

type_synonym ustr = "nat list"

definition ascii :: "string \<Rightarrow> ustr" where
  "ascii s = map of_char s"

text \<open>\<open>str.isspace\<close> on one code point: the whitespace of the Unicode database.\<close>

definition isspace :: "nat \<Rightarrow> bool" where
  "isspace c =
     ((9 \<le> c \<and> c \<le> 13) \<or> (28 \<le> c \<and> c \<le> 32) \<or> c = 133 \<or> c = 160 \<or> c = 5760
      \<or> (8192 \<le> c \<and> c \<le> 8202) \<or> c = 8232 \<or> c = 8233 \<or> c = 8239 \<or> c = 8287
      \<or> c = 12288)"

text \<open>\<open>s.strip()\<close>: leading and trailing whitespace removed.\<close>

definition strip :: "ustr \<Rightarrow> ustr" where
  "strip s = rev (dropWhile isspace (rev (dropWhile isspace s)))"

definition startswith :: "ustr \<Rightarrow> ustr \<Rightarrow> bool" where
  "startswith s p = (take (length p) s = p)"

definition endswith :: "ustr \<Rightarrow> ustr \<Rightarrow> bool" where
  "endswith s p = (length p \<le> length s \<and> drop (length s - length p) s = p)"

text \<open>\<open>sep.join(parts)\<close>.\<close>

fun join :: "ustr \<Rightarrow> ustr list \<Rightarrow> ustr" where
  "join sep [] = []"
| "join sep [p] = p"
| "join sep (p # q # ps) = p @ sep @ join sep (q # ps)"

text \<open>\<open>s.replace(a, b)\<close> for one-character \<open>a\<close> and \<open>b\<close>.\<close>

definition replace_char :: "nat \<Rightarrow> nat \<Rightarrow> ustr \<Rightarrow> ustr" where
  "replace_char a b s = map (\<lambda>c. if c = a then b else c) s"

section \<open>Errors\<close>

text \<open>
  The exceptions the two scripts raise: the \<open>RuntimeError\<close> of \<open>parse_methods\<close>, and the
  two \<open>SystemExit\<close>s of the catalog generator (a missing specification file; a code with no
  English message, which carries the code).
\<close>

datatype error =
    Unable_to_locate_method_detail_section
  | Missing_specification_file
  | Missing_English_message int

section \<open>generate\_api\_docs.py: collapsing table rows\<close>

text \<open>
  \<^verbatim>\<open>
  def collapse_table_rows(rows, is_new_row=None):
      if not rows:
          return rows
      header = rows[0]
      collapsed = [header]
      current = None
      if is_new_row is None:
          is_new_row = lambda r: bool(r and r[0])
      for row in rows[1:]:
          padded = row + [""] * max(0, len(header) - len(row))
          if is_new_row(row):
              current = padded[: len(header)]
              collapsed.append(current)
          elif current:
              for idx, value in enumerate(padded[: len(header)]):
                  if value:
                      current[idx] = (current[idx] + " " + value).strip() if current[idx] else value
      return collapsed
  \<close>
  A row is a list of cells. The loop's state is the pair of \<open>collapsed\<close> and
  \<open>current\<close>; \<open>current\<close> is the very list object appended last to \<open>collapsed\<close>, so
  an assignment to \<open>current[idx]\<close> changes the last row of \<open>collapsed\<close>: the model
  replaces that last row. \<open>elif current\<close> is false for \<open>None\<close> and for the empty list.
\<close>

definition default_is_new_row :: "ustr list \<Rightarrow> bool" where
  "default_is_new_row r = (r \<noteq> [] \<and> hd r \<noteq> [])"

definition resolve_is_new_row :: "(ustr list \<Rightarrow> bool) option \<Rightarrow> ustr list \<Rightarrow> bool" where
  "resolve_is_new_row is_new_row = (case is_new_row of None \<Rightarrow> default_is_new_row | Some p \<Rightarrow> p)"

text \<open>The inner loop over \<open>enumerate(padded[: len(header)])\<close>, from index \<open>idx\<close> on.\<close>

fun merge_into :: "ustr list \<Rightarrow> nat \<Rightarrow> ustr list \<Rightarrow> ustr list" where
  "merge_into current idx [] = current"
| "merge_into current idx (v # vs) =
     merge_into
       (if v \<noteq> []
        then current[idx := (if current ! idx \<noteq> [] then strip (current ! idx @ [32] @ v) else v)]
        else current)
       (Suc idx) vs"

definition collapse_step ::
  "(ustr list \<Rightarrow> bool) \<Rightarrow> ustr list \<Rightarrow> ustr list list \<times> ustr list option \<Rightarrow> ustr list
     \<Rightarrow> ustr list list \<times> ustr list option" where
  "collapse_step is_new header st row =
     (let collapsed = fst st; current = snd st;
          padded = row @ replicate (length header - length row) []
      in if is_new row
         then let cur = take (length header) padded in (collapsed @ [cur], Some cur)
         else (case current of
                 None \<Rightarrow> st
               | Some cur \<Rightarrow>
                   if cur \<noteq> []
                   then let cur' = merge_into cur 0 (take (length header) padded)
                        in (butlast collapsed @ [cur'], Some cur')
                   else st))"

definition collapse_table_rows ::
  "ustr list list \<Rightarrow> (ustr list \<Rightarrow> bool) option \<Rightarrow> ustr list list" where
  "collapse_table_rows rows is_new_row =
     (case rows of
        [] \<Rightarrow> rows
      | header # rest \<Rightarrow>
          fst (foldl (collapse_step (resolve_is_new_row is_new_row) header) ([header], None) rest))"

section \<open>generate\_api\_docs.py: method sections\<close>

definition METHOD_NAMES :: "ustr list" where
  "METHOD_NAMES = map ascii
     [''JVInit'', ''JVSetUIProperties'', ''JVSetServiceKey'', ''JVSetSaveFlag'',
      ''JVSetSavePath'', ''JVOpen'', ''JVRTOpen'', ''JVStatus'', ''JVRead'', ''JVGets'',
      ''JVSkip'', ''JVCancel'', ''JVClose'', ''JVFiledelete'', ''JVFukuFile'', ''JVFuku'',
      ''JVMVCheck'', ''JVMVCheckWithType'', ''JVMVPlay'', ''JVMVPlayWithType'', ''JVMVOpen'',
      ''JVMVRead'', ''JVCourseFile'', ''JVCourseFile2'', ''JVWatchEvent'',
      ''JVWatchEventClose'']"

definition method_set :: "ustr set" where
  "method_set = set METHOD_NAMES"

text \<open>
  \<open>parse_methods\<close> starts from the text lines of the HTML document, split at line breaks,
  normalized, the empty ones dropped: the list \<open>processed\<close>. The first loop merges a
  line with the next one when the two together, and not the first alone, are a method name.
  \<^verbatim>\<open>
  while i < len(processed):
      line = processed[i]
      if i + 1 < len(processed):
          combined = (line + processed[i + 1]).strip()
          if combined in method_set and line not in method_set:
              merged.append(combined); i += 2; continue
      merged.append(line); i += 1
  \<close>
\<close>

fun merge_fragments :: "ustr list \<Rightarrow> ustr list" where
  "merge_fragments [] = []"
| "merge_fragments [line] = [line]"
| "merge_fragments (line # nxt # rest) =
     (let combined = strip (line @ nxt)
      in if combined \<in> method_set \<and> line \<notin> method_set
         then combined # merge_fragments rest
         else line # merge_fragments (nxt # rest))"

text \<open>
  \<^verbatim>\<open>
  indices = [idx for idx, value in enumerate(merged) if value == "JVInit"]
  if len(indices) < 2:
      raise RuntimeError("Unable to locate method detail section.")
  detail_lines = merged[indices[1] :]
  \<close>
\<close>

definition indices :: "ustr list \<Rightarrow> nat list" where
  "indices merged = map fst (filter (\<lambda>(idx, v). v = ascii ''JVInit'') (enumerate 0 merged))"

definition detail_section :: "ustr list \<Rightarrow> error + ustr list" where
  "detail_section merged =
     (if length (indices merged) < 2 then Inl Unable_to_locate_method_detail_section
      else Inr (drop (indices merged ! 1) merged))"

text \<open>
  A method is the dictionary with the keys \<open>name\<close>, \<open>summary\<close> and \<open>sections\<close>; its
  sections are a dictionary from label to text, kept as an association list in insertion
  order. \<open>dict_set\<close> is the assignment \<open>d[k] = v\<close>: an existing key keeps its place.
\<close>

record method_definition =
  name :: ustr
  summary :: ustr
  sections :: "(ustr \<times> ustr) list"

fun dict_set :: "'k \<Rightarrow> 'v \<Rightarrow> ('k \<times> 'v) list \<Rightarrow> ('k \<times> 'v) list" where
  "dict_set k v [] = [(k, v)]"
| "dict_set k v ((k', v') # ps) = (if k' = k then (k, v) # ps else (k', v') # dict_set k v ps)"

text \<open>A bracket label: the line starts with U+3010 and ends with U+3011.\<close>

definition is_bracket_label :: "ustr \<Rightarrow> bool" where
  "is_bracket_label line = (startswith line [12304] \<and> endswith line [12305])"

text \<open>
  The inner loop that gathers the body of a labelled subsection, up to the next bracket
  label or the next expected method name; it returns the block and the lines left.
  \<^verbatim>\<open>
  while i < len(detail_lines):
      nxt = detail_lines[i]
      if not nxt:
          block.append(""); i += 1; continue
      if nxt.startswith(U+3010) and nxt.endswith(U+3011): break
      if method_idx < len(METHOD_NAMES) and nxt == METHOD_NAMES[method_idx]: break
      block.append(nxt); i += 1
  \<close>
\<close>

fun collect_block :: "nat \<Rightarrow> ustr list \<Rightarrow> ustr list \<Rightarrow> ustr list \<times> ustr list" where
  "collect_block method_idx block [] = (block, [])"
| "collect_block method_idx block (nxt # rest) =
     (if nxt = [] then collect_block method_idx (block @ [[]]) rest
      else if is_bracket_label nxt then (block, nxt # rest)
      else if method_idx < length METHOD_NAMES \<and> nxt = METHOD_NAMES ! method_idx
      then (block, nxt # rest)
      else collect_block method_idx (block @ [nxt]) rest)"

lemma length_collect_block: "length (snd (collect_block i block ls)) \<le> length ls"
  by (induction ls arbitrary: block) (auto intro: le_SucI)

lemma length_collect_block_less: "length (snd (collect_block i block ls)) < Suc (length ls)"
  using length_collect_block[of i block ls] by simp

lemma length_dropWhile_less: "length (dropWhile P xs) < Suc (length xs)"
  using length_dropWhile_le[of P xs] by simp

lemma length_tl_dropWhile_less: "length (dropWhile P xs) - Suc 0 < Suc (length xs)"
  using length_dropWhile_le[of P xs] by simp

text \<open>
  The main loop over \<open>detail_lines\<close>, on the lines from index \<open>i\<close> on, with the state
  \<open>methods\<close>, \<open>current\<close> and \<open>method_idx\<close>.
  \<^verbatim>\<open>
  while i < len(detail_lines) and method_idx < len(METHOD_NAMES):
      line = detail_lines[i]
      if line == METHOD_NAMES[method_idx]:
          if current: methods.append(current)
          current = {"name": line, "summary": "", "sections": {}}
          method_idx += 1; i += 1
          while i < len(detail_lines) and not detail_lines[i]: i += 1
          if (i < len(detail_lines) and detail_lines[i] not in method_set
                  and not detail_lines[i].startswith(U+3010)):
              current["summary"] = detail_lines[i]; i += 1
          continue
      if current is None:
          i += 1; continue
      if line.startswith(U+3010) and line.endswith(U+3011):
          key = line[1:-1]; i += 1
          block = ...                     (the inner loop above)
          current["sections"][key] = "\n".join(block).strip()
          continue
      i += 1
  \<close>
\<close>

function scan ::
  "ustr list \<Rightarrow> method_definition list \<Rightarrow> method_definition option \<Rightarrow> nat
     \<Rightarrow> method_definition list \<times> method_definition option" where
  "scan [] methods current method_idx = (methods, current)"
| "scan (line # rest) methods current method_idx =
     (if \<not> method_idx < length METHOD_NAMES then (methods, current)
      else if line = METHOD_NAMES ! method_idx
      then (let methods' = (case current of None \<Rightarrow> methods | Some c \<Rightarrow> methods @ [c]);
                rest' = dropWhile (\<lambda>l. l = []) rest
            in if rest' \<noteq> [] \<and> hd rest' \<notin> method_set \<and> \<not> startswith (hd rest') [12304]
               then scan (tl rest') methods'
                      (Some \<lparr>name = line, summary = hd rest', sections = []\<rparr>) (Suc method_idx)
               else scan rest' methods'
                      (Some \<lparr>name = line, summary = [], sections = []\<rparr>) (Suc method_idx))
      else (case current of
              None \<Rightarrow> scan rest methods current method_idx
            | Some c \<Rightarrow>
                if is_bracket_label line
                then (let key = butlast (tl line);
                          res = collect_block method_idx [] rest
                      in scan (snd res) methods
                           (Some (c\<lparr>sections := dict_set key (strip (join [10] (fst res))) (sections c)\<rparr>))
                           method_idx)
                else scan rest methods current method_idx))"
  by pat_completeness auto
termination
  by (relation "measure (\<lambda>(ls, methods, current, method_idx). length ls)")
     (simp_all add: length_collect_block_less length_dropWhile_less length_tl_dropWhile_less)


text \<open>After the loop: \<open>if current: methods.append(current)\<close>.\<close>

definition finish ::
  "method_definition list \<times> method_definition option \<Rightarrow> method_definition list" where
  "finish res = (case snd res of None \<Rightarrow> fst res | Some c \<Rightarrow> fst res @ [c])"

definition segment_methods :: "ustr list \<Rightarrow> error + method_definition list" where
  "segment_methods merged =
     (case detail_section merged of
        Inl e \<Rightarrow> Inl e
      | Inr detail_lines \<Rightarrow> Inr (finish (scan detail_lines [] None 0)))"

text \<open>
  Grouping. A group is the dictionary with the keys \<open>title\<close>, \<open>methods\<close> and
  \<open>sections\<close>. The merged sections of a pair are built over a \<open>set\<close> of keys, whose
  iteration order Python leaves open: the sections of a group are a map. First one group
  per pair of \<open>grouping\<close> with both members found, then one per remaining method found, in
  the order of \<open>METHOD_NAMES\<close>.
  \<^verbatim>\<open>
  method_lookup = {m["name"]: m for m in methods}
  for primary, secondary in grouping:
      if primary not in method_lookup or secondary not in method_lookup: continue
      grouped_names.add(primary); grouped_names.add(secondary)
      merged_sections = {}
      for key in set(list(P["sections"].keys()) + list(S["sections"].keys())):
          merged_sections[key] = P["sections"].get(key) or S["sections"].get(key) or ""
      grouped_methods.append({"title": f"{primary} / {secondary}",
          "methods": [{"name": primary, "summary": P["summary"] or "See shared details below."},
                      {"name": secondary, "summary": S["summary"] or "See shared details below."}],
          "sections": merged_sections})
  for name in METHOD_NAMES:
      if name in grouped_names: continue
      info = method_lookup.get(name)
      if not info: continue
      grouped_methods.append({"title": name,
          "methods": [{"name": name, "summary": info["summary"] or "See details below."}],
          "sections": info["sections"]})
  \<close>
\<close>

record group_member =
  member_name :: ustr
  member_summary :: ustr

record method_group =
  title :: ustr
  group_members :: "group_member list"
  group_sections :: "ustr \<rightharpoonup> ustr"

definition grouping :: "(ustr \<times> ustr) list" where
  "grouping =
     [(ascii ''JVMVCheck'', ascii ''JVMVCheckWithType''),
      (ascii ''JVMVPlay'', ascii ''JVMVPlayWithType''),
      (ascii ''JVWatchEvent'', ascii ''JVWatchEventClose'')]"

definition method_lookup :: "method_definition list \<Rightarrow> (ustr \<rightharpoonup> method_definition)" where
  "method_lookup ms = foldl (\<lambda>d m. d(name m \<mapsto> m)) Map.empty ms"

definition py_or :: "ustr \<Rightarrow> ustr \<Rightarrow> ustr" where
  "py_or a b = (if a \<noteq> [] then a else b)"

definition merge_sections :: "method_definition \<Rightarrow> method_definition \<Rightarrow> (ustr \<rightharpoonup> ustr)" where
  "merge_sections p s =
     (\<lambda>key. if key \<in> fst ` set (sections p) \<union> fst ` set (sections s)
            then Some (py_or (case map_of (sections p) key of None \<Rightarrow> [] | Some v \<Rightarrow> v)
                        (py_or (case map_of (sections s) key of None \<Rightarrow> [] | Some v \<Rightarrow> v) []))
            else None)"

definition pair_step ::
  "(ustr \<rightharpoonup> method_definition) \<Rightarrow> method_group list \<times> ustr set \<Rightarrow> ustr \<times> ustr
     \<Rightarrow> method_group list \<times> ustr set" where
  "pair_step lookup st pr =
     (case (lookup (fst pr), lookup (snd pr)) of
        (Some p, Some s) \<Rightarrow>
          (fst st @
             [\<lparr>title = fst pr @ ascii '' / '' @ snd pr,
               group_members =
                 [\<lparr>member_name = fst pr,
                    member_summary = py_or (summary p) (ascii ''See shared details below.'')\<rparr>,
                  \<lparr>member_name = snd pr,
                    member_summary = py_or (summary s) (ascii ''See shared details below.'')\<rparr>],
               group_sections = merge_sections p s\<rparr>],
           insert (snd pr) (insert (fst pr) (snd st)))
      | _ \<Rightarrow> st)"

definition single_step ::
  "(ustr \<rightharpoonup> method_definition) \<Rightarrow> ustr set \<Rightarrow> method_group list \<Rightarrow> ustr
     \<Rightarrow> method_group list" where
  "single_step lookup grouped_names grouped_methods nm =
     (if nm \<in> grouped_names then grouped_methods
      else (case lookup nm of
              None \<Rightarrow> grouped_methods
            | Some info \<Rightarrow>
                grouped_methods @
                  [\<lparr>title = nm,
                    group_members =
                      [\<lparr>member_name = nm,
                         member_summary = py_or (summary info) (ascii ''See details below.'')\<rparr>],
                    group_sections = map_of (sections info)\<rparr>]))"

definition group_methods :: "method_definition list \<Rightarrow> method_group list" where
  "group_methods ms =
     (let lookup = method_lookup ms;
          paired = foldl (pair_step lookup) ([], {}) grouping
      in foldl (single_step lookup (snd paired)) (fst paired) METHOD_NAMES)"

definition parse_methods :: "ustr list \<Rightarrow> error + method_group list" where
  "parse_methods processed =
     (case segment_methods (merge_fragments processed) of
        Inl e \<Rightarrow> Inl e
      | Inr ms \<Rightarrow> Inr (group_methods ms))"


text \<open>
  For the statements below: the invariant of the main loop (the names found so far are the
  first \<open>k\<close> method names), the member names of a group, and the order the specification
  describes for the groups (by the declared position of each group's first member).
\<close>

definition names_upto :: "method_definition list \<Rightarrow> method_definition option \<Rightarrow> nat \<Rightarrow> bool" where
  "names_upto ms cur k \<longleftrightarrow>
     k \<le> length METHOD_NAMES \<and> map name (finish (ms, cur)) = take k METHOD_NAMES"

definition group_names :: "method_group \<Rightarrow> ustr list" where
  "group_names g = map member_name (group_members g)"

definition declared_position :: "ustr \<Rightarrow> nat" where
  "declared_position nm = length (takeWhile (\<lambda>n. n \<noteq> nm) METHOD_NAMES)"

definition spec_declared_order :: "method_group list \<Rightarrow> bool" where
  "spec_declared_order gs =
     sorted (map (\<lambda>g. declared_position (case group_names g of [] \<Rightarrow> [] | p # _ \<Rightarrow> p)) gs)"

section \<open>generate\_api\_docs.py: error-code rows\<close>

text \<open>
  \<open>parse_error_codes\<close> reads the error-code tables of the HTML document. Its loop over the
  data rows of one table keeps \<open>entries\<close> and \<open>last_entry\<close>; \<open>last_entry\<close> is the
  dictionary appended last (or \<open>None\<close> while \<open>entries\<close> is empty), so an assignment to
  \<open>last_entry["notes"]\<close> changes the last entry of the list.
  \<^verbatim>\<open>
  for raw_row in rows[1:]:
      cells = [cell for cell in raw_row if cell]
      if not cells: continue
      if len(cells) == 1 and last_entry:
          last_entry["notes"] = " ".join(filter(None, [last_entry["notes"], cells[0]])).strip()
          continue
      code_cell = cells[0]
      meaning = cells[1] if len(cells) > 1 else ""
      notes = " ".join(cells[2:]) if len(cells) > 2 else ""
      codes = [code.strip() for code in code_cell.replace(U+3001, " ").split() if code.strip()]
      if not codes:
          if last_entry:
              last_entry["notes"] = " ".join(filter(None, [last_entry["notes"], code_cell]))
          continue
      applies = current_methods or ["General"]
      for code in codes:
          entry = {"methods": ", ".join(applies), "code": code, "meaning": meaning, "notes": notes}
          entries.append(entry); last_entry = entry
  \<close>
  \<open>split_whitespace\<close> is \<open>str.split()\<close>: the pieces between runs of whitespace.
\<close>

record error_code_entry =
  ec_methods :: ustr
  ec_code :: ustr
  ec_meaning :: ustr
  ec_notes :: ustr

fun split_where :: "(nat \<Rightarrow> bool) \<Rightarrow> ustr \<Rightarrow> ustr list" where
  "split_where P [] = [[]]"
| "split_where P (c # cs) =
     (if P c then [] # split_where P cs
      else (case split_where P cs of [] \<Rightarrow> [[c]] | p # ps \<Rightarrow> (c # p) # ps))"

definition split_whitespace :: "ustr \<Rightarrow> ustr list" where
  "split_whitespace s = filter (\<lambda>p. p \<noteq> []) (split_where isspace s)"

definition fold_into_notes :: "ustr \<Rightarrow> ustr \<Rightarrow> ustr" where
  "fold_into_notes old_notes text = join [32] (filter (\<lambda>p. p \<noteq> []) [old_notes, text])"

definition error_row_step ::
  "ustr list \<Rightarrow> error_code_entry list \<Rightarrow> ustr list \<Rightarrow> error_code_entry list" where
  "error_row_step current_methods entries raw_row =
     (let cells = filter (\<lambda>cell. cell \<noteq> []) raw_row
      in if cells = [] then entries
         else if length cells = 1 \<and> entries \<noteq> []
         then butlast entries
                @ [(last entries)\<lparr>ec_notes :=
                     strip (fold_into_notes (ec_notes (last entries)) (cells ! 0))\<rparr>]
         else (let code_cell = cells ! 0;
                   meaning_cell = (if length cells > 1 then cells ! 1 else []);
                   notes_cell = (if length cells > 2 then join [32] (drop 2 cells) else []);
                   codes = map strip (filter (\<lambda>c. strip c \<noteq> [])
                             (split_whitespace (replace_char 12289 32 code_cell)))
               in if codes = []
                  then (if entries \<noteq> []
                        then butlast entries
                               @ [(last entries)\<lparr>ec_notes :=
                                    fold_into_notes (ec_notes (last entries)) code_cell\<rparr>]
                        else entries)
                  else entries
                         @ map (\<lambda>c. \<lparr>ec_methods =
                                       join (ascii '', '')
                                         (if current_methods \<noteq> [] then current_methods
                                          else [ascii ''General'']),
                                     ec_code = c, ec_meaning = meaning_cell,
                                     ec_notes = notes_cell\<rparr>) codes))"

definition error_table_rows ::
  "ustr list \<Rightarrow> error_code_entry list \<Rightarrow> ustr list list \<Rightarrow> error_code_entry list" where
  "error_table_rows current_methods entries rows =
     foldl (error_row_step current_methods) entries (tl rows)"

section \<open>generate\_error\_catalog.py\<close>

subsection \<open>Code normalization\<close>

text \<open>
  The pattern \<open>\d\<close> of a \<open>str\<close> regular expression matches every code point whose
  Unicode decimal property is set, and \<open>int\<close> reads each of them as its decimal value.
  These code points come in blocks of ten, zero to nine; \<open>decimal_zeros\<close> lists the zero of
  each block (Unicode 14: 48 is ASCII \<open>0\<close>, 65296 the full-width zero).
\<close>

definition decimal_zeros :: "nat list" where
  "decimal_zeros =
     [48, 1632, 1776, 1984, 2406, 2534, 2662, 2790, 2918, 3046, 3174, 3302, 3430, 3558,
      3664, 3792, 3872, 4160, 4240, 6112, 6160, 6470, 6608, 6784, 6800, 6992, 7088, 7232,
      7248, 42528, 43216, 43264, 43472, 43504, 43600, 44016, 65296, 66720, 68912, 69734,
      69872, 69942, 70096, 70384, 70736, 70864, 71248, 71360, 71472, 71904, 72016, 72784,
      73040, 73120, 92768, 92864, 93008, 120782, 120792, 120802, 120812, 120822, 123200,
      123632, 125264, 130032]"

definition decimal_value :: "nat \<Rightarrow> nat option" where
  "decimal_value c = map_option (\<lambda>z. c - z) (find (\<lambda>z. z \<le> c \<and> c < z + 10) decimal_zeros)"

definition isdecimal :: "nat \<Rightarrow> bool" where
  "isdecimal c = (decimal_value c \<noteq> None)"

text \<open>
  \<open>re.search(r"-?\d+", text)\<close>: the leftmost match. At a position holding an ASCII
  minus (45) followed by a digit the match is the minus and the longest run of digits; at a
  position holding a digit it is the longest run of digits; any other position (a minus
  with no digit behind it too) is passed over. The result is the sign and the digits.
\<close>

fun search_signed_digits :: "ustr \<Rightarrow> (bool \<times> ustr) option" where
  "search_signed_digits [] = None"
| "search_signed_digits (c # cs) =
     (if c = 45 \<and> cs \<noteq> [] \<and> isdecimal (hd cs) then Some (True, takeWhile isdecimal cs)
      else if isdecimal c then Some (False, takeWhile isdecimal (c # cs))
      else search_signed_digits cs)"

text \<open>\<open>int\<close> of a run of decimal digits (the only text \<open>normalize_code\<close> hands to it).\<close>

definition int_of_digits :: "ustr \<Rightarrow> int" where
  "int_of_digits ds =
     foldl (\<lambda>acc c. acc * 10 + int (case decimal_value c of Some d \<Rightarrow> d | None \<Rightarrow> 0)) 0 ds"

text \<open>
  \<^verbatim>\<open>
  def normalize_code(raw: str) -> int | None:
      text = raw.replace(U+2015, "-").replace(U+2212, "-")
      match = re.search(r"-?\d+", text)
      return int(match.group(0)) if match else None
  \<close>
  The two glyphs replaced are the horizontal bar (8213) and the minus sign (8722).
\<close>

definition normalize_code :: "ustr \<Rightarrow> int option" where
  "normalize_code raw =
     (let text = replace_char 8722 45 (replace_char 8213 45 raw)
      in case search_signed_digits text of
           None \<Rightarrow> None
         | Some (neg, ds) \<Rightarrow> Some (if neg then - int_of_digits ds else int_of_digits ds))"

subsection \<open>The fixed tables\<close>

text \<open>
  \<open>CODE_MESSAGES\<close>, the canonical English message of each code, and
  \<open>METHOD_MESSAGE_OVERRIDES\<close>, per code the messages of single methods.
\<close>

definition CODE_MESSAGES :: "int \<rightharpoonup> ustr" where
  "CODE_MESSAGES = map_of
     [(- 504, ascii ''Service is currently under maintenance.''),
      (- 503, ascii ''Required file or temporary file was deleted before JVLink could process it.''),
      (- 502, ascii ''Download failed because of a communication or disk error.''),
      (- 501, ascii ''Setup media (CD/DVD) is invalid or missing.''),
      (- 431, ascii ''Server reported an internal error.''),
      (- 421, ascii ''Server returned a malformed response.''),
      (- 413, ascii ''Server returned HTTP 403/other restricted status.''),
      (- 412, ascii ''Server returned HTTP 403 Forbidden.''),
      (- 411, ascii ''Server returned HTTP 404 or registry contents are invalid.''),
      (- 403, ascii ''Downloaded data is corrupted.''),
      (- 402, ascii ''Downloaded file has an invalid size.''),
      (- 401, ascii ''JV-Link reported an internal error.''),
      (- 305, ascii ''User agreement has not been accepted.''),
      (- 304, ascii ''Movie license state is invalid.''),
      (- 303, ascii ''Service key is not configured.''),
      (- 302, ascii ''Service key has expired.''),
      (- 301, ascii ''Authentication failure (invalid or duplicated service key).''),
      (- 211, ascii ''Registry values are invalid or JVInit has not been executed.''),
      (- 203, ascii ''JVOpen was not executed before the current call.''),
      (- 202, ascii ''Previous JVOpen/JVRTOpen/JVMVOpen session is still open.''),
      (- 201, ascii ''JVInit was not executed before the current call.''),
      (- 118, ascii ''File path parameter is invalid or the directory does not exist.''),
      (- 116, ascii ''Option and dataspec combination is invalid.''),
      (- 115, ascii ''Option parameter is invalid.''),
      (- 114, ascii ''Key parameter is invalid.''),
      (- 113, ascii ''Fromtime (end) parameter is invalid.''),
      (- 112, ascii ''Fromtime (start) parameter is invalid.''),
      (- 111, ascii ''Dataspec parameter is invalid.''),
      (- 103, ascii ''SID begins with a space.''),
      (- 102, ascii ''SID exceeds 64 bytes.''),
      (- 101, ascii ''SID is missing.''),
      (- 100, ascii ''UI configuration was cancelled or could not be persisted.''),
      (- 3, ascii ''Target files are still downloading.''),
      (- 2, ascii ''Setup dialog was cancelled by the user.''),
      (- 1, ascii ''No matching data exists for the current parameters.''),
      (0, ascii ''Operation completed successfully.''),
      (1, ascii ''Victory silks image was created successfully.'')]"

definition METHOD_MESSAGE_OVERRIDES :: "(int \<times> (ustr \<times> ustr) list) list" where
  "METHOD_MESSAGE_OVERRIDES =
     [(- 503,
        [(ascii ''JVCLOSE'', ascii ''Target file was already removed; closure can continue.'')]),
      (- 411,
        [(ascii ''JVFUKU'', ascii ''Server returned HTTP 404/Not Found for the requested resource.''),
         (ascii ''JVMVPLAY'', ascii ''Server returned HTTP 404/Not Found for the requested movie.''),
         (ascii ''JVMVPLAYWITHTYPE'', ascii ''Server returned HTTP 404/Not Found for the requested movie.'')]),
      (- 201,
        [(ascii ''JVCLOSE'', ascii ''JVInit must be executed before JVClose.''),
         (ascii ''JVCOURSEFILE'', ascii ''JVInit must be executed before requesting course data.''),
         (ascii ''JVCOURSEFILE2'', ascii ''JVInit must be executed before requesting course data.''),
         (ascii ''JVFUKU'', ascii ''JVInit must be executed before requesting silks data.''),
         (ascii ''JVMVCHECK'', ascii ''JVInit must be executed before calling movie APIs.''),
         (ascii ''JVMVCHECKWITHTYPE'', ascii ''JVInit must be executed before calling movie APIs.''),
         (ascii ''JVMVOPEN'', ascii ''JVInit must be executed before opening movie lists.''),
         (ascii ''JVMVPLAY'', ascii ''JVInit must be executed before playing movies.''),
         (ascii ''JVMVPLAYWITHTYPE'', ascii ''JVInit must be executed before playing movies.''),
         (ascii ''JVMVREAD'', ascii ''JVInit must be executed before reading movie lists.''),
         (ascii ''JVOPEN'', ascii ''JVInit must be executed before JVOpen.''),
         (ascii ''JVSETUIPROPERTIES'', ascii ''JVInit must be executed before configuring UI settings.'')]),
      (- 1,
        [(ascii ''JVCLOSE'', ascii ''File boundary reached; continue with the next file.''),
         (ascii ''JVOPEN'', ascii ''File boundary reached; continue reading.''),
         (ascii ''JVREAD'', ascii ''File boundary reached; continue reading.''),
         (ascii ''JVGETS'', ascii ''File boundary reached; continue reading.'')]),
      (0,
        [(ascii ''JVSETUIPROPERTIES'', ascii ''Settings saved successfully.''),
         (ascii ''JVOPEN'', ascii ''All files processed successfully.'')])]"

subsection \<open>Reading the table\<close>

text \<open>
  A record of the script is the dictionary with the keys \<open>methods\<close>, \<open>code\<close>,
  \<open>category\<close>, \<open>meaning\<close>, \<open>notes\<close> and \<open>documentation\<close> (the key \<open>notes\<close> holds the
  value of the variable \<open>notes_clean\<close>, whose name the field takes here).
\<close>

record raw_record =
  methods :: "ustr list"
  code :: int
  category :: ustr
  meaning :: ustr
  notes_clean :: ustr
  documentation :: ustr

text \<open>\<open>s.split(sep)\<close> for a one-character separator.\<close>

fun split_char :: "nat \<Rightarrow> ustr \<Rightarrow> ustr list" where
  "split_char sep [] = [[]]"
| "split_char sep (c # cs) =
     (if c = sep then [] # split_char sep cs
      else (case split_char sep cs of [] \<Rightarrow> [[c]] | p # ps \<Rightarrow> (c # p) # ps))"

text \<open>
  The loop over the lines of the specification file. A line gives a record or is passed
  over; \<open>parse_row\<close> is the part of the loop body up to the code, and yields the raw cells
  with the normalized code.
  \<^verbatim>\<open>
  for line in handle:
      row = line.strip()
      if not row.startswith("|"): continue
      parts = [segment.strip() for segment in row.split("|")[1:-1]]
      if len(parts) < 3: continue
      if parts[0].startswith("Method") or parts[1] in ("Code", U+30B3 U+30FC U+30C9): continue
      methods_raw, code_raw, meaning_raw = parts[:3]
      notes = parts[3] if len(parts) > 3 else ""
      code = normalize_code(code_raw)
      if code is None: continue
      methods = normalize_methods(methods_raw)
      category = infer_category(f"{meaning_raw} {notes}")
      meaning = normalize_text(meaning_raw)
      notes_clean = normalize_text(notes)
      documentation = normalize_doc(meaning_raw, notes)
      records.append({...})
  \<close>
\<close>

definition row_parts :: "ustr \<Rightarrow> ustr list" where
  "row_parts row = map strip (butlast (tl (split_char 124 row)))"

definition parse_row :: "ustr \<Rightarrow> (ustr \<times> int \<times> ustr \<times> ustr) option" where
  "parse_row line =
     (let row = strip line
      in if \<not> startswith row [124] then None
         else (let parts = row_parts row
               in if length parts < 3 then None
                  else if startswith (parts ! 0) (ascii ''Method'')
                          \<or> parts ! 1 = ascii ''Code'' \<or> parts ! 1 = [12467, 12540, 12489]
                  then None
                  else (let methods_raw = parts ! 0; code_raw = parts ! 1; meaning_raw = parts ! 2;
                            notes_raw = (if length parts > 3 then parts ! 3 else [])
                        in case normalize_code code_raw of
                             None \<Rightarrow> None
                           | Some c \<Rightarrow> Some (methods_raw, c, meaning_raw, notes_raw))))"

text \<open>
  The text cleaners \<open>normalize_methods\<close>, \<open>infer_category\<close> and \<open>normalize_text\<close> (regular
  expressions over Unicode classes, \<open>str.lower\<close>) enter the loop only through the values
  they return. They are parameters of the model, and so is \<open>str.upper\<close> below: every
  statement about the loops holds whatever these functions compute.
  \<open>normalize_doc(meaning, notes)\<close> is
  \<open>normalize_text(" ".join(part for part in (meaning, notes) if part))\<close>.
\<close>

record text_ops =
  normalize_methods :: "ustr \<Rightarrow> ustr list"
  infer_category :: "ustr \<Rightarrow> ustr"
  normalize_text :: "ustr \<Rightarrow> ustr"

definition normalize_doc :: "text_ops \<Rightarrow> ustr \<Rightarrow> ustr \<Rightarrow> ustr" where
  "normalize_doc ops meaning_raw notes_raw =
     normalize_text ops (join [32] (filter (\<lambda>part. part \<noteq> []) [meaning_raw, notes_raw]))"

definition make_record :: "text_ops \<Rightarrow> ustr \<times> int \<times> ustr \<times> ustr \<Rightarrow> raw_record" where
  "make_record ops row =
     (case row of (methods_raw, c, meaning_raw, notes_raw) \<Rightarrow>
        \<lparr>methods = normalize_methods ops methods_raw,
         code = c,
         category = infer_category ops (meaning_raw @ [32] @ notes_raw),
         meaning = normalize_text ops meaning_raw,
         notes_clean = normalize_text ops notes_raw,
         documentation = normalize_doc ops meaning_raw notes_raw\<rparr>)"

definition parse_records :: "text_ops \<Rightarrow> ustr list \<Rightarrow> raw_record list" where
  "parse_records ops lines = map (make_record ops) (List.map_filter parse_row lines)"

subsection \<open>Consolidation\<close>

text \<open>
  An entry of the catalog is the dictionary with the keys \<open>base_category\<close>,
  \<open>base_message\<close>, \<open>base_doc\<close>, \<open>methods\<close> (a set) and \<open>overrides\<close> (a dictionary from
  method to the override with the keys \<open>category\<close>, \<open>message\<close>, \<open>doc\<close>, each \<open>None\<close> or a
  string).
  \<^verbatim>\<open>
  for record in records:
      ...
      method_keys = {m.upper() for m in methods}
      if code not in CODE_MESSAGES:
          raise SystemExit(f"Missing English message for code {code}")
      method_message_map = {key.upper(): value
          for key, value in METHOD_MESSAGE_OVERRIDES.get(code, {}).items()}
      if code not in catalog:
          catalog[code] = {"base_category": category, "base_message": CODE_MESSAGES[code],
              "base_doc": documentation, "methods": set(method_keys), "overrides": {}}
      entry = catalog[code]
      entry["methods"].update(method_keys)
      for method in method_keys:
          override = entry["overrides"].setdefault(method,
              {"category": None, "message": None, "doc": None})
          if category != entry["base_category"]: override["category"] = category
          if method in method_message_map: override["message"] = method_message_map[method]
          if documentation and documentation != entry["base_doc"]:
              override["doc"] = documentation
  \<close>
  The inner loop runs over a set; each round touches the override of its own method only,
  so the order does not matter and the model updates all methods of the record at once.
\<close>

record override =
  ov_category :: "ustr option"
  ov_message :: "ustr option"
  ov_doc :: "ustr option"

record entry =
  base_category :: ustr
  base_message :: ustr
  base_doc :: ustr
  entry_methods :: "ustr set"
  overrides :: "ustr \<rightharpoonup> override"

definition method_message_map :: "(ustr \<Rightarrow> ustr) \<Rightarrow> int \<Rightarrow> (ustr \<rightharpoonup> ustr)" where
  "method_message_map upper c =
     foldl (\<lambda>d kv. d(upper (fst kv) \<mapsto> snd kv)) Map.empty
       (case map_of METHOD_MESSAGE_OVERRIDES c of None \<Rightarrow> [] | Some items \<Rightarrow> items)"

definition method_keys :: "(ustr \<Rightarrow> ustr) \<Rightarrow> raw_record \<Rightarrow> ustr set" where
  "method_keys upper r = upper ` set (methods r)"

definition update_override ::
  "raw_record \<Rightarrow> entry \<Rightarrow> (ustr \<rightharpoonup> ustr) \<Rightarrow> ustr \<Rightarrow> override \<Rightarrow> override" where
  "update_override r e method_message_map' method ov =
     (let ov1 = (if category r \<noteq> base_category e then ov\<lparr>ov_category := Some (category r)\<rparr> else ov);
          ov2 = (case method_message_map' method of
                   None \<Rightarrow> ov1
                 | Some msg \<Rightarrow> ov1\<lparr>ov_message := Some msg\<rparr>)
      in if documentation r \<noteq> [] \<and> documentation r \<noteq> base_doc e
         then ov2\<lparr>ov_doc := Some (documentation r)\<rparr> else ov2)"

definition consolidate_step ::
  "(ustr \<Rightarrow> ustr) \<Rightarrow> (int \<rightharpoonup> entry) \<Rightarrow> raw_record \<Rightarrow> error + (int \<rightharpoonup> entry)" where
  "consolidate_step upper catalog r =
     (let keys = method_keys upper r
      in case CODE_MESSAGES (code r) of
           None \<Rightarrow> Inl (Missing_English_message (code r))
         | Some msg \<Rightarrow>
             (let e = (case catalog (code r) of
                         None \<Rightarrow>
                           \<lparr>base_category = category r, base_message = msg,
                            base_doc = documentation r, entry_methods = keys,
                            overrides = Map.empty\<rparr>
                       | Some e0 \<Rightarrow> e0);
                  ovs = (\<lambda>m. if m \<in> keys
                             then Some (update_override r e (method_message_map upper (code r)) m
                                    (case overrides e m of
                                       None \<Rightarrow> \<lparr>ov_category = None, ov_message = None, ov_doc = None\<rparr>
                                     | Some ov \<Rightarrow> ov))
                             else overrides e m)
              in Inr (catalog(code r \<mapsto>
                        e\<lparr>entry_methods := entry_methods e \<union> keys, overrides := ovs\<rparr>))))"

fun consolidate ::
  "(ustr \<Rightarrow> ustr) \<Rightarrow> (int \<rightharpoonup> entry) \<Rightarrow> raw_record list \<Rightarrow> error + (int \<rightharpoonup> entry)" where
  "consolidate upper catalog [] = Inr catalog"
| "consolidate upper catalog (r # rs) =
     (case consolidate_step upper catalog r of
        Inl err \<Rightarrow> Inl err
      | Inr catalog' \<Rightarrow> consolidate upper catalog' rs)"

subsection \<open>Emission\<close>

text \<open>
  The generated file lists, for the codes in ascending order, one F-sharp record
  \<open>{ Base = { Code; Category; Message; Documentation }; Methods; Overrides }\<close>. The model
  keeps the values these records denote: \<open>Methods\<close> is the sorted list of the method set,
  \<open>Overrides\<close> the map that \<open>Map.ofList\<close> builds (\<open>Map.empty\<close> when nothing passes the
  filter), an override field \<open>Some text\<close> when the value is a non-empty string and \<open>None\<close>
  otherwise. Quoting and the capitalized category name are rendering.
  \<^verbatim>\<open>
  for code in sorted_codes:
      entry = catalog[code]
      methods_expr = ... sorted(entry["methods"]) ...
      overrides_filtered = {method: data for method, data in entry["overrides"].items()
          if data["category"] is not None or data["message"] is not None}
      if overrides_filtered:
          for method, data in sorted(overrides_filtered.items()):
              category_expr = (f"Some ..." if data["category"] else "None")
              message_expr = (f"Some ..." if data["message"] else "None")
              doc_expr = (f"Some ..." if data["doc"] else "None")
              ...
  \<close>
\<close>

record override_out =
  Category :: "ustr option"
  Message :: "ustr option"
  Documentation :: "ustr option"

record entry_out =
  Code :: int
  BaseCategory :: ustr
  BaseMessage :: ustr
  BaseDocumentation :: ustr
  Methods :: "ustr list"
  Overrides :: "ustr \<rightharpoonup> override_out"

definition truthy :: "ustr option \<Rightarrow> ustr option" where
  "truthy x = (case x of None \<Rightarrow> None | Some s \<Rightarrow> if s \<noteq> [] then Some s else None)"

definition overrides_filtered :: "entry \<Rightarrow> (ustr \<rightharpoonup> override)" where
  "overrides_filtered e =
     (\<lambda>method. case overrides e method of
                 None \<Rightarrow> None
               | Some data \<Rightarrow>
                   if ov_category data \<noteq> None \<or> ov_message data \<noteq> None then Some data else None)"

definition emit_entry :: "int \<Rightarrow> entry \<Rightarrow> entry_out" where
  "emit_entry c e =
     \<lparr>Code = c, BaseCategory = base_category e, BaseMessage = base_message e,
      BaseDocumentation = base_doc e,
      Methods = sorted_list_of_set (entry_methods e),
      Overrides =
        (\<lambda>method. map_option
           (\<lambda>data. \<lparr>Category = truthy (ov_category data), Message = truthy (ov_message data),
                     Documentation = truthy (ov_doc data)\<rparr>)
           (overrides_filtered e method))\<rparr>"

definition emit :: "(int \<rightharpoonup> entry) \<Rightarrow> entry_out list" where
  "emit catalog =
     List.map_filter (\<lambda>c. map_option (emit_entry c) (catalog c)) (sorted_list_of_set (dom catalog))"

subsection \<open>The run\<close>

text \<open>
  The script as a whole, on the two files it touches: the specification table
  (\<open>SOURCE\<close>, its lines) and the generated catalog (\<open>TARGET\<close>). It stops when the
  specification file is missing; it reads the records and consolidates them, which may
  stop with the missing message of a code; only then it writes \<open>TARGET\<close> and, after it,
  rewrites \<open>SOURCE\<close> from the records. \<open>str_int\<close> is \<open>str\<close> of an integer.
\<close>

fun digits :: "nat \<Rightarrow> ustr" where
  "digits n = (if n < 10 then [48 + n] else digits (n div 10) @ [48 + n mod 10])"

definition str_int :: "int \<Rightarrow> ustr" where
  "str_int i = (if i < 0 then 45 # digits (nat (- i)) else digits (nat i))"

definition escape_markdown :: "ustr \<Rightarrow> ustr" where
  "escape_markdown text = concat (map (\<lambda>c. if c = 124 then [92, 124] else [c]) text)"

definition sanitized_lines :: "raw_record list \<Rightarrow> ustr list" where
  "sanitized_lines records =
     [ascii ''# JV-Link Error Codes'', [],
      ascii ''Source: `JV-Link4901` specification (v4.9.0.1).'', [],
      ascii ''| Method(s) | Code | Meaning | Notes |'',
      ascii ''| --- | --- | --- | --- |'']
     @ map (\<lambda>r. ascii ''| '' @ join (ascii '', '') (methods r) @ ascii '' | '' @ str_int (code r)
                @ ascii '' | '' @ escape_markdown (meaning r) @ ascii '' | ''
                @ escape_markdown (notes_clean r) @ ascii '' |'') records"

record files =
  source :: "ustr list option"
  target :: "entry_out list option"

definition run :: "text_ops \<Rightarrow> (ustr \<Rightarrow> ustr) \<Rightarrow> files \<Rightarrow> (error + unit) \<times> files" where
  "run ops upper fs =
     (case source fs of
        None \<Rightarrow> (Inl Missing_specification_file, fs)
      | Some lines \<Rightarrow>
          (let records = parse_records ops lines
           in case consolidate upper Map.empty records of
                Inl err \<Rightarrow> (Inl err, fs)
              | Inr catalog \<Rightarrow>
                  (Inr (), fs\<lparr>target := Some (emit catalog),
                              source := Some (sanitized_lines records)\<rparr>)))"

subsection \<open>For the statements below\<close>

text \<open>
  \<open>str.upper\<close> on ASCII text, the entry of a code seen for the first time and the override
  \<open>setdefault\<close> starts from, the invariant of the consolidation loop (what the overrides of
  a code hold after the records \<open>rs\<close>), what a consolidation from the empty catalog leaves
  for one code and emits for one method, and the inputs of the examples.
\<close>

definition ascii_upper :: "ustr \<Rightarrow> ustr" where
  "ascii_upper s = map (\<lambda>c. if 97 \<le> c \<and> c \<le> 122 then c - 32 else c) s"


definition fresh_entry :: "(ustr \<Rightarrow> ustr) \<Rightarrow> raw_record \<Rightarrow> ustr \<Rightarrow> entry" where
  "fresh_entry upper r msg =
     \<lparr>base_category = category r, base_message = msg, base_doc = documentation r,
      entry_methods = method_keys upper r, overrides = Map.empty\<rparr>"

definition no_override :: override where
  "no_override = \<lparr>ov_category = None, ov_message = None, ov_doc = None\<rparr>"

definition override_inv :: "(ustr \<Rightarrow> ustr) \<Rightarrow> raw_record list \<Rightarrow> int \<Rightarrow> entry \<Rightarrow> bool" where
  "override_inv upper rs c e \<longleftrightarrow>
     (\<forall>m. (overrides e m = None \<longrightarrow> \<not> (\<exists>r \<in> set rs. code r = c \<and> m \<in> method_keys upper r))
        \<and> (\<forall>ov. overrides e m = Some ov \<longrightarrow>
              (\<exists>r \<in> set rs. code r = c \<and> m \<in> method_keys upper r)
            \<and> (ov_category ov \<noteq> None \<longleftrightarrow>
                 (\<exists>r \<in> set rs. code r = c \<and> m \<in> method_keys upper r
                    \<and> category r \<noteq> base_category e))
            \<and> ov_message ov = method_message_map upper c m
            \<and> (ov_doc ov \<noteq> None \<longleftrightarrow>
                 (\<exists>r \<in> set rs. code r = c \<and> m \<in> method_keys upper r
                    \<and> documentation r \<noteq> [] \<and> documentation r \<noteq> base_doc e))
            \<and> ov_doc ov \<noteq> Some []))"

definition catalog_inv :: "(ustr \<Rightarrow> ustr) \<Rightarrow> raw_record list \<Rightarrow> (int \<rightharpoonup> entry) \<Rightarrow> bool" where
  "catalog_inv upper rs catalog \<longleftrightarrow>
     (\<forall>c. (catalog c = None \<longrightarrow> (\<forall>r \<in> set rs. code r \<noteq> c))
        \<and> (\<forall>e. catalog c = Some e \<longrightarrow> override_inv upper rs c e))"

definition consolidated_entry :: "(ustr \<Rightarrow> ustr) \<Rightarrow> raw_record list \<Rightarrow> int \<Rightarrow> entry option" where
  "consolidated_entry upper rs c =
     (case consolidate upper Map.empty rs of Inl err \<Rightarrow> None | Inr catalog \<Rightarrow> catalog c)"




definition example_rows :: "raw_record list" where
  "example_rows =
     [\<lparr>methods = [ascii ''JVOpen''], code = - 2, category = ascii ''other'',
       meaning = ascii ''cancelled'', notes_clean = [], documentation = ascii ''cancelled''\<rparr>,
      \<lparr>methods = [ascii ''JVRead''], code = - 2, category = ascii ''other'',
       meaning = ascii ''cancelled by user'', notes_clean = [],
       documentation = ascii ''cancelled by user''\<rparr>]"

definition table_lines :: "ustr list" where
  "table_lines =
     [ascii ''| JVOpen | -1 | no matching data | continue reading |'',
      ascii ''|  | see above | more text |  |'']"

section \<open>Evaluation lemmas\<close>

lemma isdecimal_ascii_digit: "48 \<le> c \<Longrightarrow> c < 58 \<Longrightarrow> isdecimal c"
  by (simp add: isdecimal_def decimal_value_def decimal_zeros_def)

lemma decimal_value_ascii_digit: "48 \<le> c \<Longrightarrow> c < 58 \<Longrightarrow> decimal_value c = Some (c - 48)"
  by (simp add: decimal_value_def decimal_zeros_def)

lemma not_isdecimal_below_48: "c < 48 \<Longrightarrow> \<not> isdecimal c"
  by (simp add: isdecimal_def decimal_value_def decimal_zeros_def)

section \<open>Code normalization\<close>

text \<open>
  C1. The code strings \<open>-301\<close> with an ASCII minus, with the minus sign U+2212 and with the
  horizontal bar U+2015 normalize to the integer -301. With the full-width hyphen-minus
  U+FF0D (65293), which \<open>normalize_code\<close> does not replace, the leftmost match is the bare
  digit run and the result is 301, not -301.
\<close>

theorem normalize_code_301:
  "normalize_code (ascii ''-301'') = Some (- 301)
   \<and> normalize_code (8722 # ascii ''301'') = Some (- 301)
   \<and> normalize_code (8213 # ascii ''301'') = Some (- 301)
   \<and> normalize_code (65293 # ascii ''301'') = Some 301"
  by (simp add: normalize_code_def ascii_def replace_char_def isdecimal_def decimal_value_def
      decimal_zeros_def int_of_digits_def)

section \<open>The error catalog\<close>

lemma consolidate_step_unknown:
  "CODE_MESSAGES (code r) = None \<Longrightarrow>
   consolidate_step upper catalog r = Inl (Missing_English_message (code r))"
  by (simp add: consolidate_step_def)

lemma consolidate_step_known:
  "CODE_MESSAGES (code r) \<noteq> None \<Longrightarrow> \<exists>catalog'. consolidate_step upper catalog r = Inr catalog'"
  by (auto simp: consolidate_step_def Let_def)

lemma consolidate_first_unknown:
  "find (\<lambda>r. CODE_MESSAGES (code r) = None) rs = Some r \<Longrightarrow>
   consolidate upper catalog rs = Inl (Missing_English_message (code r))"
proof (induction rs arbitrary: catalog)
  case Nil
  then show ?case by simp
next
  case (Cons a rs)
  show ?case
  proof (cases "CODE_MESSAGES (code a) = None")
    case True
    then have "a = r" using Cons.prems by simp
    then show ?thesis using True by (simp add: consolidate_step_unknown)
  next
    case False
    then obtain catalog' where st: "consolidate_step upper catalog a = Inr catalog'"
      using consolidate_step_known by blast
    have "find (\<lambda>r. CODE_MESSAGES (code r) = None) rs = Some r"
      using Cons.prems False by simp
    then show ?thesis using Cons.IH st by simp
  qed
qed

lemma consolidate_all_known:
  "find (\<lambda>r. CODE_MESSAGES (code r) = None) rs = None \<Longrightarrow>
   \<exists>catalog'. consolidate upper catalog rs = Inr catalog'"
proof (induction rs arbitrary: catalog)
  case Nil
  then show ?case by simp
next
  case (Cons a rs)
  then have k: "CODE_MESSAGES (code a) \<noteq> None"
    and rest: "find (\<lambda>r. CODE_MESSAGES (code r) = None) rs = None"
    by (simp_all split: if_splits)
  obtain catalog' where st: "consolidate_step upper catalog a = Inr catalog'"
    using consolidate_step_known[OF k] by blast
  show ?case using Cons.IH[OF rest, of catalog'] st by simp
qed

text \<open>
  C5. If some record read from the specification file carries a code that has no entry in
  \<open>CODE_MESSAGES\<close>, the run stops with the error that names the code of the first such
  record, and it returns the files as they were: the generated catalog is not written (and
  the specification file is not rewritten).
\<close>

theorem run_aborts_on_unknown_code:
  assumes "source fs = Some lines"
    and "\<exists>r \<in> set (parse_records ops lines). CODE_MESSAGES (code r) = None"
  shows "\<exists>r. find (\<lambda>r. CODE_MESSAGES (code r) = None) (parse_records ops lines) = Some r
           \<and> CODE_MESSAGES (code r) = None
           \<and> run ops upper fs = (Inl (Missing_English_message (code r)), fs)
           \<and> target (snd (run ops upper fs)) = target fs"
proof -
  from assms(2) obtain r where
    f: "find (\<lambda>r. CODE_MESSAGES (code r) = None) (parse_records ops lines) = Some r"
    by (cases "find (\<lambda>r. CODE_MESSAGES (code r) = None) (parse_records ops lines)")
       (auto simp: find_None_iff)
  then have u: "CODE_MESSAGES (code r) = None" by (auto simp: find_Some_iff)
  have "consolidate upper Map.empty (parse_records ops lines) = Inl (Missing_English_message (code r))"
    using f by (rule consolidate_first_unknown)
  then have "run ops upper fs = (Inl (Missing_English_message (code r)), fs)"
    using assms(1) by (simp add: run_def)
  then show ?thesis using f u by simp
qed

lemma consolidate_step_other:
  "consolidate_step upper catalog r = Inr catalog' \<Longrightarrow> c \<noteq> code r \<Longrightarrow> catalog' c = catalog c"
  by (auto simp: consolidate_step_def Let_def split: option.splits)

lemma consolidate_step_new:
  "consolidate_step upper catalog r = Inr catalog' \<Longrightarrow> catalog (code r) = None \<Longrightarrow>
   \<exists>e. catalog' (code r) = Some e \<and> base_category e = category r \<and> base_doc e = documentation r
        \<and> CODE_MESSAGES (code r) = Some (base_message e)"
  by (auto simp: consolidate_step_def Let_def split: option.splits)

lemma consolidate_step_old:
  "consolidate_step upper catalog r = Inr catalog' \<Longrightarrow> catalog (code r) = Some e0 \<Longrightarrow>
   \<exists>e. catalog' (code r) = Some e \<and> base_category e = base_category e0 \<and> base_doc e = base_doc e0
        \<and> base_message e = base_message e0"
  by (auto simp: consolidate_step_def Let_def split: option.splits)

lemma consolidate_step_keeps_base:
  assumes "consolidate_step upper catalog r = Inr catalog'" "catalog c = Some e0"
  shows "\<exists>e. catalog' c = Some e \<and> base_category e = base_category e0 \<and> base_doc e = base_doc e0
        \<and> base_message e = base_message e0"
proof (cases "c = code r")
  case True
  then show ?thesis using consolidate_step_old[OF assms(1)] assms(2) by simp
next
  case False
  then show ?thesis using consolidate_step_other[OF assms(1) False] assms(2) by simp
qed

lemma consolidate_keeps_base:
  "consolidate upper catalog rs = Inr catalog' \<Longrightarrow> catalog c = Some e0 \<Longrightarrow>
   \<exists>e. catalog' c = Some e \<and> base_category e = base_category e0 \<and> base_doc e = base_doc e0
        \<and> base_message e = base_message e0"
proof (induction rs arbitrary: catalog e0)
  case Nil
  then show ?case by simp
next
  case (Cons a rs)
  from Cons.prems(1) obtain cat1 where st: "consolidate_step upper catalog a = Inr cat1"
    and rest: "consolidate upper cat1 rs = Inr catalog'"
    by (auto split: sum.splits)
  from consolidate_step_keeps_base[OF st Cons.prems(2)] obtain e1 where
    e1: "cat1 c = Some e1" "base_category e1 = base_category e0" "base_doc e1 = base_doc e0"
      "base_message e1 = base_message e0" by blast
  from Cons.IH[OF rest e1(1)] show ?case using e1 by auto
qed

lemma consolidate_base_first:
  "consolidate upper catalog rs = Inr catalog' \<Longrightarrow> catalog c = None \<Longrightarrow> catalog' c = Some e \<Longrightarrow>
   \<exists>r0. find (\<lambda>r. code r = c) rs = Some r0 \<and> base_category e = category r0
        \<and> base_doc e = documentation r0 \<and> CODE_MESSAGES c = Some (base_message e)"
proof (induction rs arbitrary: catalog)
  case Nil
  then show ?case by simp
next
  case (Cons a rs)
  from Cons.prems(1) obtain cat1 where st: "consolidate_step upper catalog a = Inr cat1"
    and rest: "consolidate upper cat1 rs = Inr catalog'"
    by (auto split: sum.splits)
  show ?case
  proof (cases "code a = c")
    case True
    from consolidate_step_new[OF st] Cons.prems(2) True obtain e1 where
      e1: "cat1 c = Some e1" "base_category e1 = category a" "base_doc e1 = documentation a"
        "CODE_MESSAGES c = Some (base_message e1)" by auto
    from consolidate_keeps_base[OF rest e1(1)] Cons.prems(3)
    have "base_category e = base_category e1" "base_doc e = base_doc e1"
      "base_message e = base_message e1" by auto
    then show ?thesis using True e1 by simp
  next
    case False
    then have "cat1 c = None" using consolidate_step_other[OF st, of c] Cons.prems(2) by simp
    from Cons.IH[OF rest this Cons.prems(3)] show ?thesis using False by simp
  qed
qed

text \<open>
  C9. In the consolidated catalog the base category and the base documentation of a code
  are the category and the documentation of the first record, in input order, with that
  code. Processing one more record, of this or another code, leaves the base category, the
  base documentation and the base message of the entry as they are.
\<close>

theorem base_fields_from_first_entry:
  assumes "consolidate upper Map.empty rs = Inr catalog" and "catalog c = Some e"
  shows "(\<exists>r0. find (\<lambda>r. code r = c) rs = Some r0
            \<and> base_category e = category r0 \<and> base_doc e = documentation r0)
         \<and> (\<forall>r catalog'. consolidate_step upper catalog r = Inr catalog'
              \<longrightarrow> (\<exists>e'. catalog' c = Some e' \<and> base_category e' = base_category e
                       \<and> base_doc e' = base_doc e \<and> base_message e' = base_message e))"
proof -
  have "\<exists>r0. find (\<lambda>r. code r = c) rs = Some r0
            \<and> base_category e = category r0 \<and> base_doc e = documentation r0"
    using consolidate_base_first[OF assms(1) _ assms(2)] by auto
  moreover have "\<forall>r catalog'. consolidate_step upper catalog r = Inr catalog'
              \<longrightarrow> (\<exists>e'. catalog' c = Some e' \<and> base_category e' = base_category e
                       \<and> base_doc e' = base_doc e \<and> base_message e' = base_message e)"
  proof (intro allI impI)
    fix r catalog' assume "consolidate_step upper catalog r = Inr catalog'"
    then show "\<exists>e'. catalog' c = Some e' \<and> base_category e' = base_category e
                       \<and> base_doc e' = base_doc e \<and> base_message e' = base_message e"
      using assms(2) by (rule consolidate_step_keeps_base)
  qed
  ultimately show ?thesis by (rule conjI)
qed


lemma update_override_fields:
  "ov_category (update_override r e mm m ov)
     = (if category r \<noteq> base_category e then Some (category r) else ov_category ov)"
  "ov_message (update_override r e mm m ov)
     = (case mm m of None \<Rightarrow> ov_message ov | Some msg \<Rightarrow> Some msg)"
  "ov_doc (update_override r e mm m ov)
     = (if documentation r \<noteq> [] \<and> documentation r \<noteq> base_doc e
        then Some (documentation r) else ov_doc ov)"
  by (simp_all add: update_override_def Let_def split: option.splits)

lemma consolidate_step_entry:
  assumes "consolidate_step upper catalog r = Inr catalog'"
  shows "\<exists>msg e0. CODE_MESSAGES (code r) = Some msg
      \<and> e0 = (case catalog (code r) of None \<Rightarrow> fresh_entry upper r msg | Some x \<Rightarrow> x)
      \<and> catalog' = catalog(code r \<mapsto>
            e0\<lparr>entry_methods := entry_methods e0 \<union> method_keys upper r,
               overrides := (\<lambda>m. if m \<in> method_keys upper r
                   then Some (update_override r e0 (method_message_map upper (code r)) m
                          (case overrides e0 m of None \<Rightarrow> no_override | Some ov \<Rightarrow> ov))
                   else overrides e0 m)\<rparr>)"
proof -
  obtain msg where msg: "CODE_MESSAGES (code r) = Some msg"
    using assms by (cases "CODE_MESSAGES (code r)") (simp_all add: consolidate_step_def)
  have "consolidate_step upper catalog r = Inr (catalog(code r \<mapsto>
            (case catalog (code r) of None \<Rightarrow> fresh_entry upper r msg | Some x \<Rightarrow> x)
              \<lparr>entry_methods := entry_methods (case catalog (code r) of None \<Rightarrow> fresh_entry upper r msg | Some x \<Rightarrow> x)
                   \<union> method_keys upper r,
               overrides := (\<lambda>m. if m \<in> method_keys upper r
                   then Some (update_override r (case catalog (code r) of None \<Rightarrow> fresh_entry upper r msg | Some x \<Rightarrow> x)
                          (method_message_map upper (code r)) m
                          (case overrides (case catalog (code r) of None \<Rightarrow> fresh_entry upper r msg | Some x \<Rightarrow> x) m of
                             None \<Rightarrow> no_override | Some ov \<Rightarrow> ov))
                   else overrides (case catalog (code r) of None \<Rightarrow> fresh_entry upper r msg | Some x \<Rightarrow> x) m)\<rparr>))"
    unfolding consolidate_step_def Let_def fresh_entry_def no_override_def by (simp add: msg)
  then show ?thesis using assms msg by simp
qed


lemma override_inv_other:
  "code r \<noteq> c \<Longrightarrow> override_inv upper (rs @ [r]) c e = override_inv upper rs c e"
  by (simp add: override_inv_def)

lemma override_inv_fresh:
  "\<forall>r' \<in> set rs. code r' \<noteq> c \<Longrightarrow> override_inv upper rs c (fresh_entry upper r msg)"
  by (simp add: override_inv_def fresh_entry_def)

lemma override_inv_step:
  assumes inv: "override_inv upper rs (code r) e0"
  shows "override_inv upper (rs @ [r]) (code r)
           (e0\<lparr>entry_methods := ms,
               overrides := (\<lambda>m. if m \<in> method_keys upper r
                   then Some (update_override r e0 (method_message_map upper (code r)) m
                          (case overrides e0 m of None \<Rightarrow> no_override | Some ov \<Rightarrow> ov))
                   else overrides e0 m)\<rparr>)"
  unfolding override_inv_def
proof (intro allI)
  fix m
  let ?c = "code r"
  let ?e' = "e0\<lparr>entry_methods := ms,
               overrides := (\<lambda>m. if m \<in> method_keys upper r
                   then Some (update_override r e0 (method_message_map upper (code r)) m
                          (case overrides e0 m of None \<Rightarrow> no_override | Some ov \<Rightarrow> ov))
                   else overrides e0 m)\<rparr>"
  have base: "base_category ?e' = base_category e0" "base_doc ?e' = base_doc e0" by simp_all
  have old_none: "overrides e0 m = None \<Longrightarrow>
      \<not> (\<exists>r' \<in> set rs. code r' = ?c \<and> m \<in> method_keys upper r')"
    using inv unfolding override_inv_def by blast
  have old_some: "\<And>ov. overrides e0 m = Some ov \<Longrightarrow>
              (\<exists>r' \<in> set rs. code r' = ?c \<and> m \<in> method_keys upper r')
            \<and> (ov_category ov \<noteq> None \<longleftrightarrow>
                 (\<exists>r' \<in> set rs. code r' = ?c \<and> m \<in> method_keys upper r'
                    \<and> category r' \<noteq> base_category e0))
            \<and> ov_message ov = method_message_map upper ?c m
            \<and> (ov_doc ov \<noteq> None \<longleftrightarrow>
                 (\<exists>r' \<in> set rs. code r' = ?c \<and> m \<in> method_keys upper r'
                    \<and> documentation r' \<noteq> [] \<and> documentation r' \<noteq> base_doc e0))
            \<and> ov_doc ov \<noteq> Some []"
    using inv unfolding override_inv_def by blast
  show "(overrides ?e' m = None \<longrightarrow> \<not> (\<exists>r' \<in> set (rs @ [r]). code r' = ?c \<and> m \<in> method_keys upper r'))
        \<and> (\<forall>ov. overrides ?e' m = Some ov \<longrightarrow>
              (\<exists>r' \<in> set (rs @ [r]). code r' = ?c \<and> m \<in> method_keys upper r')
            \<and> (ov_category ov \<noteq> None \<longleftrightarrow>
                 (\<exists>r' \<in> set (rs @ [r]). code r' = ?c \<and> m \<in> method_keys upper r'
                    \<and> category r' \<noteq> base_category ?e'))
            \<and> ov_message ov = method_message_map upper ?c m
            \<and> (ov_doc ov \<noteq> None \<longleftrightarrow>
                 (\<exists>r' \<in> set (rs @ [r]). code r' = ?c \<and> m \<in> method_keys upper r'
                    \<and> documentation r' \<noteq> [] \<and> documentation r' \<noteq> base_doc ?e'))
            \<and> ov_doc ov \<noteq> Some [])"
  proof (cases "m \<in> method_keys upper r")
    case False
    then have same: "overrides ?e' m = overrides e0 m" by simp
    show ?thesis unfolding same base using False old_none old_some by auto
  next
    case True
    define old where "old = (case overrides e0 m of None \<Rightarrow> no_override | Some ov \<Rightarrow> ov)"
    define new where "new = update_override r e0 (method_message_map upper ?c) m old"
    have ov': "overrides ?e' m = Some new" using True by (simp add: new_def old_def)
    have oc: "ov_category old \<noteq> None \<longleftrightarrow>
                 (\<exists>r' \<in> set rs. code r' = ?c \<and> m \<in> method_keys upper r'
                    \<and> category r' \<noteq> base_category e0)"
      using old_none old_some unfolding old_def no_override_def
      by (cases "overrides e0 m") auto
    have om: "ov_message old = None \<or> ov_message old = method_message_map upper ?c m"
      using old_some unfolding old_def no_override_def
      by (cases "overrides e0 m") auto
    have od: "ov_doc old \<noteq> None \<longleftrightarrow>
                 (\<exists>r' \<in> set rs. code r' = ?c \<and> m \<in> method_keys upper r'
                    \<and> documentation r' \<noteq> [] \<and> documentation r' \<noteq> base_doc e0)"
      using old_none old_some unfolding old_def no_override_def
      by (cases "overrides e0 m") auto
    have one: "ov_doc old \<noteq> Some []"
      using old_some unfolding old_def no_override_def
      by (cases "overrides e0 m") auto
    have n1: "ov_category new \<noteq> None \<longleftrightarrow>
                 (\<exists>r' \<in> set (rs @ [r]). code r' = ?c \<and> m \<in> method_keys upper r'
                    \<and> category r' \<noteq> base_category e0)"
      unfolding new_def update_override_fields using oc True by auto
    have n2: "ov_message new = method_message_map upper ?c m"
      unfolding new_def update_override_fields using om
      by (cases "method_message_map upper ?c m") auto
    have n3: "ov_doc new \<noteq> None \<longleftrightarrow>
                 (\<exists>r' \<in> set (rs @ [r]). code r' = ?c \<and> m \<in> method_keys upper r'
                    \<and> documentation r' \<noteq> [] \<and> documentation r' \<noteq> base_doc e0)"
      unfolding new_def update_override_fields using od True by auto
    have n4: "ov_doc new \<noteq> Some []"
      unfolding new_def update_override_fields using one by auto
    have n0: "\<exists>r' \<in> set (rs @ [r]). code r' = ?c \<and> m \<in> method_keys upper r'"
      using True by auto
    show ?thesis unfolding ov' base using n0 n1 n2 n3 n4 by simp
  qed
qed

lemma catalog_inv_step:
  assumes inv: "catalog_inv upper rs catalog"
    and st: "consolidate_step upper catalog r = Inr catalog'"
  shows "catalog_inv upper (rs @ [r]) catalog'"
proof -
  from consolidate_step_entry[OF st] obtain msg e0 where
    e0: "e0 = (case catalog (code r) of None \<Rightarrow> fresh_entry upper r msg | Some x \<Rightarrow> x)"
    and c': "catalog' = catalog(code r \<mapsto>
            e0\<lparr>entry_methods := entry_methods e0 \<union> method_keys upper r,
               overrides := (\<lambda>m. if m \<in> method_keys upper r
                   then Some (update_override r e0 (method_message_map upper (code r)) m
                          (case overrides e0 m of None \<Rightarrow> no_override | Some ov \<Rightarrow> ov))
                   else overrides e0 m)\<rparr>)"
    by blast
  have inv0: "override_inv upper rs (code r) e0"
  proof (cases "catalog (code r)")
    case None
    then have "\<forall>r' \<in> set rs. code r' \<noteq> code r" using inv unfolding catalog_inv_def by blast
    then show ?thesis unfolding e0 None by (simp add: override_inv_fresh)
  next
    case (Some x)
    then show ?thesis using inv unfolding catalog_inv_def e0 by simp
  qed
  note new = override_inv_step[OF inv0, of "entry_methods e0 \<union> method_keys upper r"]
  show ?thesis
    unfolding catalog_inv_def
  proof (intro allI)
    fix c
    show "(catalog' c = None \<longrightarrow> (\<forall>r' \<in> set (rs @ [r]). code r' \<noteq> c))
        \<and> (\<forall>e. catalog' c = Some e \<longrightarrow> override_inv upper (rs @ [r]) c e)"
    proof (cases "c = code r")
      case True
      then show ?thesis unfolding c' using new by simp
    next
      case False
      then have same: "catalog' c = catalog c" unfolding c' by simp
      have "code r \<noteq> c" using False by simp
      note oth = override_inv_other[OF this, of upper rs]
      show ?thesis unfolding same oth using inv False unfolding catalog_inv_def by auto
    qed
  qed
qed

lemma consolidate_snoc:
  "consolidate upper catalog (rs @ [r])
     = (case consolidate upper catalog rs of
          Inl err \<Rightarrow> Inl err
        | Inr catalog' \<Rightarrow> consolidate_step upper catalog' r)"
  by (induction rs arbitrary: catalog) (auto split: sum.splits)

lemma consolidate_inv:
  "consolidate upper Map.empty rs = Inr catalog \<Longrightarrow> catalog_inv upper rs catalog"
proof (induction rs arbitrary: catalog rule: rev_induct)
  case Nil
  then show ?case by (auto simp: catalog_inv_def)
next
  case (snoc r rs)
  from snoc.prems obtain cat0 where c0: "consolidate upper Map.empty rs = Inr cat0"
    and st: "consolidate_step upper cat0 r = Inr catalog"
    unfolding consolidate_snoc by (auto split: sum.splits)
  show ?case using catalog_inv_step[OF snoc.IH[OF c0] st] .
qed








lemma code_messages_m2: "CODE_MESSAGES (- 2) = Some (ascii ''Setup dialog was cancelled by the user.'')"
  by (simp add: CODE_MESSAGES_def)


lemma keys_example:
  "method_keys ascii_upper \<lparr>methods = [ascii ''JVOpen''], code = c, category = k,
       meaning = a, notes_clean = b, documentation = d\<rparr> = {ascii ''JVOPEN''}"
  "method_keys ascii_upper \<lparr>methods = [ascii ''JVRead''], code = c, category = k,
       meaning = a, notes_clean = b, documentation = d\<rparr> = {ascii ''JVREAD''}"
  by (simp_all add: method_keys_def ascii_upper_def ascii_def)



theorem base_fields_from_first_entry_witness:
  "map_option base_category (consolidated_entry ascii_upper example_rows (- 2))
     = Some (ascii ''other'')
   \<and> map_option base_doc (consolidated_entry ascii_upper example_rows (- 2))
     = Some (ascii ''cancelled'')"
proof -
  have "find (\<lambda>r. CODE_MESSAGES (code r) = None) example_rows = None"
    by (simp add: example_rows_def code_messages_m2)
  from consolidate_all_known[OF this, of ascii_upper Map.empty] obtain catalog where
    c: "consolidate ascii_upper Map.empty example_rows = Inr catalog" by blast
  have "catalog (- 2) \<noteq> None"
    using consolidate_inv[OF c] unfolding catalog_inv_def by (auto simp: example_rows_def)
  then obtain e where e: "catalog (- 2) = Some e" by blast
  from base_fields_from_first_entry[OF c e] obtain r0 where
    "find (\<lambda>r. code r = - 2) example_rows = Some r0"
    "base_category e = category r0" "base_doc e = documentation r0" by blast
  then have "base_category e = ascii ''other''" "base_doc e = ascii ''cancelled''"
    by (auto simp: example_rows_def)
  then show ?thesis unfolding consolidated_entry_def c by (simp add: e)
qed

theorem run_aborts_on_unknown_code_witness:
  "run \<lparr>normalize_methods = (\<lambda>s. [s]), infer_category = (\<lambda>s. ascii ''other''),
        normalize_text = (\<lambda>s. s)\<rparr> ascii_upper
     \<lparr>source = Some [ascii ''| JVOpen | 301 | unknown code | |''], target = None\<rparr>
   = (Inl (Missing_English_message 301),
      \<lparr>source = Some [ascii ''| JVOpen | 301 | unknown code | |''], target = None\<rparr>)"
proof -
  define ops where "ops = \<lparr>normalize_methods = (\<lambda>s. [s]), infer_category = (\<lambda>s. ascii ''other''),
        normalize_text = (\<lambda>s. s)\<rparr>"
  define fs where "fs = \<lparr>source = Some [ascii ''| JVOpen | 301 | unknown code | |''], target = None\<rparr>"
  have row: "parse_row (ascii ''| JVOpen | 301 | unknown code | |'')
      = Some (ascii ''JVOpen'', 301, ascii ''unknown code'', [])"
    by (simp add: parse_row_def row_parts_def strip_def isspace_def startswith_def ascii_def
        Let_def normalize_code_def replace_char_def isdecimal_def decimal_value_def
        decimal_zeros_def int_of_digits_def)
  have recs: "map code (parse_records ops [ascii ''| JVOpen | 301 | unknown code | |'']) = [301]"
    by (simp add: parse_records_def row make_record_def)
  have u: "CODE_MESSAGES 301 = None" by (simp add: CODE_MESSAGES_def)
  have s: "source fs = Some [ascii ''| JVOpen | 301 | unknown code | |'']" by (simp add: fs_def)
  have ex: "\<exists>r \<in> set (parse_records ops [ascii ''| JVOpen | 301 | unknown code | |'']).
      CODE_MESSAGES (code r) = None"
    using recs u by (cases "parse_records ops [ascii ''| JVOpen | 301 | unknown code | |'']") auto
  from run_aborts_on_unknown_code[OF s ex, of ascii_upper] obtain r where
    r: "find (\<lambda>r. CODE_MESSAGES (code r) = None)
          (parse_records ops [ascii ''| JVOpen | 301 | unknown code | |'']) = Some r"
      "run ops ascii_upper fs = (Inl (Missing_English_message (code r)), fs)" by blast
  have "code r = 301"
    using r(1) recs by (cases "parse_records ops [ascii ''| JVOpen | 301 | unknown code | |'']")
      (auto split: if_splits)
  then show ?thesis using r(2) unfolding ops_def fs_def by simp
qed

lemma error_row_single_cell:
  "filter (\<lambda>cell. cell \<noteq> []) raw_row = [cell] \<Longrightarrow>
   error_row_step current_methods (es @ [e]) raw_row
     = es @ [e\<lparr>ec_notes := strip (fold_into_notes (ec_notes e) cell)\<rparr>]"
  by (simp add: error_row_step_def)

lemma parse_row_no_code:
  "normalize_code (row_parts (strip line) ! 1) = None \<Longrightarrow> parse_row line = None"
  by (simp add: parse_row_def Let_def)

text \<open>
  C4, amended. A table row (it starts with the bar and has at least three cells) whose code
  cell holds no integer is skipped by the consolidator: it gives no record, and the records
  and the consolidation result are those of the input without that row, so nothing of the
  row reaches the record before it. Folding into the notes of the previous entry is done
  where the table is first read, in \<open>parse_error_codes\<close>, for a row with exactly one
  non-empty cell.
\<close>

theorem row_without_code_is_skipped:
  assumes "startswith (strip line) [124]" and "3 \<le> length (row_parts (strip line))"
    and "normalize_code (row_parts (strip line) ! 1) = None"
  shows "parse_row line = None
     \<and> parse_records ops (pre @ line # post) = parse_records ops (pre @ post)
     \<and> consolidate upper Map.empty (parse_records ops (pre @ line # post))
         = consolidate upper Map.empty (parse_records ops (pre @ post))
     \<and> (\<forall>raw_row cell current_methods es e.
           filter (\<lambda>c. c \<noteq> []) raw_row = [cell]
           \<longrightarrow> error_row_step current_methods (es @ [e]) raw_row
               = es @ [e\<lparr>ec_notes := strip (fold_into_notes (ec_notes e) cell)\<rparr>])"
proof -
  have n: "parse_row line = None" using assms(3) by (rule parse_row_no_code)
  have "List.map_filter parse_row (pre @ line # post) = List.map_filter parse_row (pre @ post)"
    by (simp add: List.map_filter_def n)
  then have "parse_records ops (pre @ line # post) = parse_records ops (pre @ post)"
    by (simp add: parse_records_def)
  then show ?thesis using n error_row_single_cell by simp
qed

lemma table_line_1:
  "parse_row (ascii ''| JVOpen | -1 | no matching data | continue reading |'')
     = Some (ascii ''JVOpen'', - 1, ascii ''no matching data'', ascii ''continue reading'')"
  by (simp add: parse_row_def row_parts_def strip_def isspace_def startswith_def ascii_def
      Let_def normalize_code_def replace_char_def isdecimal_def decimal_value_def
      decimal_zeros_def int_of_digits_def)

lemma table_line_2_parts:
  "strip (ascii ''|  | see above | more text |  |'') = ascii ''|  | see above | more text |  |''"
  "row_parts (ascii ''|  | see above | more text |  |'')
     = [[], ascii ''see above'', ascii ''more text'', []]"
  by (simp_all add: row_parts_def strip_def isspace_def ascii_def)

lemma table_line_2_code: "normalize_code (ascii ''see above'') = None"
  by (simp add: ascii_def normalize_code_def replace_char_def isdecimal_def decimal_value_def
      decimal_zeros_def)

text \<open>
  C4, as stated, fails: the consolidator drops a row whose code cell holds no integer. For
  a table row of \<open>JVOpen\<close> with code -1 and the notes \<open>continue reading\<close>, followed by the row
  \<open>|  | see above | more text |  |\<close>, the rows read are the first row alone, its notes
  unchanged.
\<close>

theorem row_without_code_is_dropped:
  "normalize_code (row_parts (strip (table_lines ! 1)) ! 1) = None
   \<and> List.map_filter parse_row table_lines
       = [(ascii ''JVOpen'', - 1, ascii ''no matching data'', ascii ''continue reading'')]
   \<and> List.map_filter parse_row table_lines = List.map_filter parse_row [table_lines ! 0]"
  by (simp add: table_lines_def table_line_1 table_line_2_parts table_line_2_code
      parse_row_no_code)

theorem row_without_code_is_skipped_witness:
  "startswith (strip (table_lines ! 1)) [124] \<and> 3 \<le> length (row_parts (strip (table_lines ! 1)))
   \<and> normalize_code (row_parts (strip (table_lines ! 1)) ! 1) = None
   \<and> parse_row (table_lines ! 1) = None"
proof -
  have a: "startswith (strip (table_lines ! 1)) [124]"
    by (simp add: table_lines_def table_line_2_parts) (simp add: startswith_def ascii_def)
  have b: "3 \<le> length (row_parts (strip (table_lines ! 1)))"
    by (simp add: table_lines_def table_line_2_parts)
  have c: "normalize_code (row_parts (strip (table_lines ! 1)) ! 1) = None"
    by (simp add: table_lines_def table_line_2_parts table_line_2_code)
  show ?thesis
    using row_without_code_is_skipped[OF a b c] a b c by simp
qed

section \<open>Row collapsing\<close>

lemma length_merge_into: "length (merge_into cur i vs) = length cur"
  by (induction vs arbitrary: cur i) auto

lemma nth_merge_into:
  "i + length vs \<le> length cur \<Longrightarrow> j < length cur \<Longrightarrow>
   merge_into cur i vs ! j =
     (if i \<le> j \<and> j < i + length vs
      then (let v = vs ! (j - i); old = cur ! j
            in if v = [] then old else if old = [] then v else strip (old @ [32] @ v))
      else cur ! j)"
proof (induction vs arbitrary: cur i)
  case Nil
  then show ?case by auto
next
  case (Cons v vs)
  let ?cur' = "(if v \<noteq> []
        then cur[i := (if cur ! i \<noteq> [] then strip (cur ! i @ [32] @ v) else v)]
        else cur)"
  have len: "length ?cur' = length cur" by simp
  have step: "merge_into cur i (v # vs) ! j = merge_into ?cur' (Suc i) vs ! j" by simp
  have IH: "merge_into ?cur' (Suc i) vs ! j =
     (if Suc i \<le> j \<and> j < Suc i + length vs
      then (let w = vs ! (j - Suc i); old = ?cur' ! j
            in if w = [] then old else if old = [] then w else strip (old @ [32] @ w))
      else ?cur' ! j)"
    using Cons.IH[of "Suc i" ?cur'] Cons.prems len by simp
  have other: "j \<noteq> i \<Longrightarrow> ?cur' ! j = cur ! j" by simp
  have here: "?cur' ! i = (if v = [] then cur ! i else if cur ! i = [] then v else strip (cur ! i @ [32] @ v))"
    using Cons.prems by simp
  consider "j = i" | "j < i" | "i < j" by linarith
  then show ?case
  proof cases
    case 1
    then show ?thesis using step IH here by (simp add: Let_def)
  next
    case 2
    then show ?thesis using step IH other by simp
  next
    case 3
    then have d: "j - i = Suc (j - Suc i)" by simp
    have "(v # vs) ! (j - i) = vs ! (j - Suc i)" unfolding d by simp
    moreover have "?cur' ! j = cur ! j" using 3 other by blast
    moreover have "(Suc i \<le> j \<and> j < Suc i + length vs) = (i \<le> j \<and> j < i + length (v # vs))"
      using 3 by auto
    ultimately show ?thesis using step IH by (simp only: Let_def)
  qed
qed

lemma nth_padded:
  "idx < length header \<Longrightarrow>
   take (length header) (row @ replicate (length header - length row) []) ! idx
     = (if idx < length row then row ! idx else [])"
  by (simp add: nth_append)

lemma length_padded:
  "length (take (length header) (row @ replicate (length header - length row) [])) = length header"
  by simp

lemma collapse_step_new:
  "is_new r \<Longrightarrow> collapse_step is_new header (col, cur) r =
     (col @ [take (length header) (r @ replicate (length header - length r) [])],
      Some (take (length header) (r @ replicate (length header - length r) [])))"
  by (simp add: collapse_step_def Let_def)

lemma collapse_step_no_current:
  "\<not> is_new r \<Longrightarrow> collapse_step is_new header (col, None) r = (col, None)"
  by (simp add: collapse_step_def Let_def)

lemma collapse_step_continuation:
  "\<not> is_new r \<Longrightarrow> collapse_step is_new header (col, Some c) r =
     (if c \<noteq> []
      then (butlast col @ [merge_into c 0 (take (length header) (r @ replicate (length header - length r) []))],
            Some (merge_into c 0 (take (length header) (r @ replicate (length header - length r) []))))
      else (col, Some c))"
  by (simp add: collapse_step_def Let_def)


lemma collapse_state_inv:
  "foldl (collapse_step is_new header) ([header], None) rs = (col, cur) \<Longrightarrow>
     (cur = None \<longleftrightarrow> \<not> (\<exists>r\<in>set rs. is_new r))
     \<and> (\<forall>c. cur = Some c \<longrightarrow> col \<noteq> [] \<and> last col = c \<and> length c = length header)"
proof (induction rs arbitrary: col cur rule: rev_induct)
  case Nil
  then show ?case by simp
next
  case (snoc r rs)
  obtain col0 cur0 where st: "foldl (collapse_step is_new header) ([header], None) rs = (col0, cur0)"
    by (cases "foldl (collapse_step is_new header) ([header], None) rs")
  note ih = snoc.IH[OF st]
  have res: "(col, cur) = collapse_step is_new header (col0, cur0) r"
    using snoc.prems st by simp
  show ?case
  proof (cases "is_new r")
    case True
    let ?p = "take (length header) (r @ replicate (length header - length r) [])"
    have "(col, cur) = (col0 @ [?p], Some ?p)"
      unfolding res using True by (rule collapse_step_new)
    then have "col = col0 @ [?p]" "cur = Some ?p" by simp_all
    then show ?thesis using True by simp
  next
    case False
    show ?thesis
    proof (cases cur0)
      case None
      have "(col, cur) = (col0, None)"
        unfolding res None using False by (rule collapse_step_no_current)
      then have "col = col0" "cur = None" by simp_all
      moreover have "\<not> (\<exists>r\<in>set rs. is_new r)" using ih None by simp
      ultimately show ?thesis using False by simp
    next
      case (Some c)
      have c: "col0 \<noteq> []" "last col0 = c" "length c = length header"
        using ih Some by simp_all
      have seen: "\<exists>r\<in>set rs. is_new r" using ih Some by simp
      let ?m = "merge_into c 0 (take (length header) (r @ replicate (length header - length r) []))"
      have step: "(col, cur) = (if c \<noteq> [] then (butlast col0 @ [?m], Some ?m) else (col0, Some c))"
        unfolding res Some using False by (rule collapse_step_continuation)
      show ?thesis
      proof (cases "c = []")
        case True
        then have "col = col0" "cur = Some c" using step by simp_all
        then show ?thesis using c seen by simp
      next
        case nonempty: False
        then have "col = butlast col0 @ [?m]" "cur = Some ?m" using step by simp_all
        then show ?thesis using c seen by (simp add: length_merge_into)
      qed
    qed
  qed
qed

lemma dropWhile_hd: "xs \<noteq> [] \<Longrightarrow> \<not> P (hd xs) \<Longrightarrow> dropWhile P xs = xs"
  by (cases xs) auto

lemma strip_joined:
  assumes "a \<noteq> []" "\<not> isspace (hd a)" "b \<noteq> []" "\<not> isspace (last b)"
  shows "strip (a @ [32] @ b) = a @ [32] @ b"
proof -
  have 1: "dropWhile isspace (a @ [32] @ b) = a @ [32] @ b"
    using assms(1,2) by (intro dropWhile_hd) auto
  have "hd (rev (a @ [32] @ b)) = last b"
    using assms(3) by (simp add: hd_rev)
  then have 2: "dropWhile isspace (rev (a @ [32] @ b)) = rev (a @ [32] @ b)"
    using assms(4) by (intro dropWhile_hd) auto
  show ?thesis unfolding strip_def 1 2 by simp
qed

lemma strip_joined_Cons:
  "a \<noteq> [] \<Longrightarrow> \<not> isspace (hd a) \<Longrightarrow> b \<noteq> [] \<Longrightarrow> \<not> isspace (last b)
   \<Longrightarrow> strip (a @ 32 # b) = a @ 32 # b"
  using strip_joined[of a b] by simp

text \<open>
  C10. A data row that fails \<open>is_new_row\<close> and comes before any new-record row is
  discarded: the result is the one the rows without it produce, and for a table of the
  header and that row alone it is the header alone.
\<close>

theorem collapse_discards_leading_continuation:
  assumes "\<not> resolve_is_new_row p r"
  shows "collapse_table_rows (header # r # rest) p = collapse_table_rows (header # rest) p
         \<and> collapse_table_rows [header, r] p = [header]"
  using assms by (simp add: collapse_table_rows_def collapse_step_no_current)

theorem collapse_discards_leading_continuation_witness:
  "\<not> resolve_is_new_row None [[], ascii ''lost''] \<and>
   collapse_table_rows [[ascii ''A'', ascii ''B''], [[], ascii ''lost'']] None
     = [[ascii ''A'', ascii ''B'']]"
proof -
  have h: "\<not> resolve_is_new_row None [[], ascii ''lost'']"
    by (simp add: resolve_is_new_row_def default_is_new_row_def)
  show ?thesis
    using h collapse_discards_leading_continuation[OF h, of "[ascii ''A'', ascii ''B'']" "[]"]
    by (simp add: collapse_table_rows_def)
qed

text \<open>
  The row-collapsing example: header \<open>[A, B]\<close>, row \<open>[x, 1]\<close>, then a continuation
  row with an empty first cell and \<open>2\<close> in the second.
\<close>

lemma collapse_example:
  "collapse_table_rows
     [[ascii ''A'', ascii ''B''], [ascii ''x'', ascii ''1''], [[], ascii ''2'']] None
   = [[ascii ''A'', ascii ''B''], [ascii ''x'', ascii ''1 2'']]"
  by (simp add: collapse_table_rows_def collapse_step_def resolve_is_new_row_def
      default_is_new_row_def ascii_def strip_def isspace_def Let_def)

text \<open>
  C6, as stated, fails where a cell carries whitespace at its outer edge: the joined text
  is stripped, so the column does not keep its old content with the new cell appended.
  With \<open>" 1"\<close> in the record and \<open>"2"\<close> in the continuation row the column becomes
  \<open>"1 2"\<close>, not \<open>" 1 2"\<close>.
\<close>

theorem collapse_strips_joined_cell:
  "last (collapse_table_rows
      [[ascii ''A'', ascii ''B''], [ascii ''x'', ascii '' 1''], [[], ascii ''2'']] None) ! 1
     = ascii ''1 2''
   \<and> last (collapse_table_rows
      [[ascii ''A'', ascii ''B''], [ascii ''x'', ascii '' 1''], [[], ascii ''2'']] None) ! 1
     \<noteq> ascii '' 1'' @ ascii '' '' @ ascii ''2''"
  by (simp add: collapse_table_rows_def collapse_step_def resolve_is_new_row_def
      default_is_new_row_def ascii_def strip_def isspace_def Let_def)

text \<open>
  C6, amended. Let \<open>c\<close> be a continuation row (it fails \<open>is_new_row\<close>) that arrives when
  a record is open (some earlier row started one). Then the collapsed table keeps its
  length and all rows but the last, the last row keeps the header's width, and in every
  column \<open>idx\<close> of the header: an empty or absent cell of \<open>c\<close> leaves the column as it
  was; a non-empty cell replaces an empty column; a non-empty cell met with a non-empty
  column gives the column, a space and the cell, stripped of outer whitespace. Where the
  column does not start and the cell does not end with whitespace, that is exactly the
  column, a space and the cell.
\<close>

theorem collapse_continuation_row:
  assumes cont: "\<not> resolve_is_new_row p c"
    and seen: "\<exists>r\<in>set rs. resolve_is_new_row p r"
  shows "let before = collapse_table_rows (header # rs) p;
             after = collapse_table_rows (header # rs @ [c]) p
         in length after = length before \<and> butlast after = butlast before
            \<and> length (last after) = length header
            \<and> (\<forall>idx < length header.
                  last after ! idx
                    = (if idx < length c \<and> c ! idx \<noteq> []
                       then if last before ! idx = [] then c ! idx
                            else strip (last before ! idx @ [32] @ c ! idx)
                       else last before ! idx))
            \<and> (\<forall>idx < length header.
                  idx < length c \<and> c ! idx \<noteq> [] \<and> \<not> isspace (last (c ! idx))
                  \<and> last before ! idx \<noteq> [] \<and> \<not> isspace (hd (last before ! idx))
                  \<longrightarrow> last after ! idx = last before ! idx @ [32] @ c ! idx)"
proof -
  let ?is_new = "resolve_is_new_row p"
  obtain col cur where st: "foldl (collapse_step ?is_new header) ([header], None) rs = (col, cur)"
    by (cases "foldl (collapse_step ?is_new header) ([header], None) rs")
  note inv = collapse_state_inv[OF st]
  from inv seen obtain cr where cr: "cur = Some cr" by (cases cur) auto
  with inv have c: "col \<noteq> []" "last col = cr" "length cr = length header" by simp_all
  have before: "collapse_table_rows (header # rs) p = col"
    by (simp add: collapse_table_rows_def st)
  define pad where "pad = take (length header) (c @ replicate (length header - length c) [])"
  have lp: "length pad = length header" unfolding pad_def by simp
  have np: "\<And>idx. idx < length header \<Longrightarrow> pad ! idx = (if idx < length c then c ! idx else [])"
    unfolding pad_def by (rule nth_padded)
  define m where "m = merge_into cr 0 pad"
  have lm: "length m = length header" unfolding m_def by (simp add: length_merge_into c(3))
  have step: "collapse_step ?is_new header (col, Some cr) c
        = (if cr \<noteq> [] then (butlast col @ [m], Some m) else (col, Some cr))"
    unfolding m_def pad_def using cont by (rule collapse_step_continuation)
  have after: "collapse_table_rows (header # rs @ [c]) p
        = (if cr \<noteq> [] then butlast col @ [m] else col)"
    by (simp add: collapse_table_rows_def st cr step)
  have cells: "m ! idx = (if idx < length c \<and> c ! idx \<noteq> []
                       then if cr ! idx = [] then c ! idx else strip (cr ! idx @ [32] @ c ! idx)
                       else cr ! idx)" if i: "idx < length header" for idx
  proof -
    have "m ! idx = (let v = pad ! (idx - 0); old = cr ! idx
                  in if v = [] then old else if old = [] then v else strip (old @ [32] @ v))"
      unfolding m_def using nth_merge_into[of 0 pad cr idx] i c(3) lp by simp
    then show ?thesis using np[OF i] by (simp add: Let_def)
  qed
  define after_rows where "after_rows = collapse_table_rows (header # rs @ [c]) p"
  have A: "length after_rows = length col \<and> butlast after_rows = butlast col
           \<and> length (last after_rows) = length header
           \<and> (\<forall>idx < length header. last after_rows ! idx = m ! idx)"
  proof (cases "cr = []")
    case True
    then have h: "header = []" using c(3) by simp
    have "after_rows = col" unfolding after_rows_def after using True by simp
    then show ?thesis using c h by simp
  next
    case False
    have "after_rows = butlast col @ [m]" unfolding after_rows_def after using False by simp
    then show ?thesis using c(1) lm by simp
  qed
  have B: "\<forall>idx < length header.
                  last after_rows ! idx
                    = (if idx < length c \<and> c ! idx \<noteq> []
                       then if last col ! idx = [] then c ! idx
                            else strip (last col ! idx @ [32] @ c ! idx)
                       else last col ! idx)"
    using A cells c(2) by simp
  have C: "\<forall>idx < length header.
                  idx < length c \<and> c ! idx \<noteq> [] \<and> \<not> isspace (last (c ! idx))
                  \<and> last col ! idx \<noteq> [] \<and> \<not> isspace (hd (last col ! idx))
                  \<longrightarrow> last after_rows ! idx = last col ! idx @ [32] @ c ! idx"
  proof (intro allI impI)
    fix idx assume i: "idx < length header"
      and h: "idx < length c \<and> c ! idx \<noteq> [] \<and> \<not> isspace (last (c ! idx))
                  \<and> last col ! idx \<noteq> [] \<and> \<not> isspace (hd (last col ! idx))"
    have "last after_rows ! idx = strip (last col ! idx @ [32] @ c ! idx)"
      using B i h by simp
    also have "\<dots> = last col ! idx @ [32] @ c ! idx"
      using h by (intro strip_joined) simp_all
    finally show "last after_rows ! idx = last col ! idx @ [32] @ c ! idx" .
  qed
  show ?thesis
    unfolding Let_def before after_rows_def[symmetric] using A B C by blast
qed

theorem collapse_continuation_row_witness:
  "\<not> resolve_is_new_row None [[], ascii ''2'']
   \<and> resolve_is_new_row None [ascii ''x'', ascii ''1'']
   \<and> last (collapse_table_rows
        [[ascii ''A'', ascii ''B''], [ascii ''x'', ascii ''1''], [[], ascii ''2'']] None) ! 0
       = ascii ''x''
   \<and> last (collapse_table_rows
        [[ascii ''A'', ascii ''B''], [ascii ''x'', ascii ''1''], [[], ascii ''2'']] None) ! 1
       = ascii ''1'' @ [32] @ ascii ''2''"
proof -
  have h1: "\<not> resolve_is_new_row None [[], ascii ''2'']"
    by (simp add: resolve_is_new_row_def default_is_new_row_def)
  have n: "resolve_is_new_row None [ascii ''x'', ascii ''1'']"
    by (simp add: resolve_is_new_row_def default_is_new_row_def ascii_def)
  then have h2: "\<exists>r\<in>set [[ascii ''x'', ascii ''1'']]. resolve_is_new_row None r"
    by simp
  have b: "collapse_table_rows [[ascii ''A'', ascii ''B''], [ascii ''x'', ascii ''1'']] None
      = [[ascii ''A'', ascii ''B''], [ascii ''x'', ascii ''1'']]"
    using n by (simp add: collapse_table_rows_def collapse_step_new)
  have sp: "\<not> isspace 49" "\<not> isspace 50" by (simp_all add: isspace_def)
  note t = collapse_continuation_row[OF h1 h2, of "[ascii ''A'', ascii ''B'']", unfolded Let_def b]
  note c0 = t[THEN conjunct2, THEN conjunct2, THEN conjunct2, THEN conjunct1, THEN spec, of 0]
  note c1 = t[THEN conjunct2, THEN conjunct2, THEN conjunct2, THEN conjunct2, THEN spec, of 1]
  show ?thesis
    using c0 c1 h1 n sp by (simp add: ascii_def)
qed

section \<open>Method sections: the segmenter\<close>

lemma names_upto_open:
  assumes "names_upto ms cur k" "k < length METHOD_NAMES"
  shows "names_upto (case cur of None \<Rightarrow> ms | Some c \<Rightarrow> ms @ [c])
           (Some \<lparr>name = METHOD_NAMES ! k, summary = s, sections = []\<rparr>) (Suc k)"
  using assms by (auto simp: names_upto_def finish_def take_Suc_conv_app_nth split: option.splits)

lemma names_upto_sections:
  "names_upto ms (Some c) k \<Longrightarrow> names_upto ms (Some (c\<lparr>sections := x\<rparr>)) k"
  by (simp add: names_upto_def finish_def)

lemma scan_names:
  "names_upto ms cur k \<Longrightarrow>
   \<exists>k'. k \<le> k' \<and> names_upto (fst (scan ls ms cur k)) (snd (scan ls ms cur k)) k'"
proof (induction ls ms cur k rule: scan.induct)
  case (1 ms0 current method_idx)
  then show ?case by auto
next
  case (2 line rest ms0 current method_idx)
  show ?case
  proof (cases "method_idx < length METHOD_NAMES")
    case False
    then show ?thesis using "2.prems" by auto
  next
    case lt: True
    show ?thesis
    proof (cases "line = METHOD_NAMES ! method_idx")
      case True
      define methods' where "methods' = (case current of None \<Rightarrow> ms0 | Some c \<Rightarrow> ms0 @ [c])"
      define rest' where "rest' = dropWhile (\<lambda>l. l = []) rest"
      have nu: "\<And>s. names_upto methods' (Some \<lparr>name = line, summary = s, sections = []\<rparr>) (Suc method_idx)"
        unfolding methods'_def True using names_upto_open[OF "2.prems" lt] .
      show ?thesis
      proof (cases "rest' \<noteq> [] \<and> hd rest' \<notin> method_set \<and> \<not> startswith (hd rest') [12304]")
        case c: True
        have "\<exists>k'. Suc method_idx \<le> k' \<and> names_upto
               (fst (scan (tl rest') methods' (Some \<lparr>name = line, summary = hd rest', sections = []\<rparr>) (Suc method_idx)))
               (snd (scan (tl rest') methods' (Some \<lparr>name = line, summary = hd rest', sections = []\<rparr>) (Suc method_idx))) k'"
          using "2.IH"(1)[OF _ True methods'_def rest'_def c nu] lt by simp
        then show ?thesis
          using lt True c unfolding methods'_def rest'_def
          by (auto simp: Let_def intro: Suc_leD)
      next
        case c: False
        have "\<exists>k'. Suc method_idx \<le> k' \<and> names_upto
               (fst (scan rest' methods' (Some \<lparr>name = line, summary = [], sections = []\<rparr>) (Suc method_idx)))
               (snd (scan rest' methods' (Some \<lparr>name = line, summary = [], sections = []\<rparr>) (Suc method_idx))) k'"
          using "2.IH"(2)[OF _ True methods'_def rest'_def c nu] lt by simp
        then show ?thesis
          using lt True c unfolding methods'_def rest'_def
          by (auto simp: Let_def intro: Suc_leD)
      qed
    next
      case ne: False
      show ?thesis
      proof (cases current)
        case None
        then show ?thesis using "2.IH"(3)[OF _ ne None] "2.prems" lt ne by simp
      next
        case (Some c)
        show ?thesis
        proof (cases "is_bracket_label line")
          case True
          define key where "key = butlast (tl line)"
          define res where "res = collect_block method_idx [] rest"
          have "names_upto ms0 (Some (c\<lparr>sections := dict_set key (strip (join [10] (fst res))) (sections c)\<rparr>)) method_idx"
            using "2.prems" Some names_upto_sections by simp
          from "2.IH"(4)[OF _ ne Some True key_def res_def this] lt
          show ?thesis using lt ne Some True unfolding key_def res_def by (simp add: Let_def)
        next
          case False
          then show ?thesis using "2.IH"(5)[OF _ ne Some False] "2.prems" lt ne Some by simp
        qed
      qed
    qed
  qed
qed


lemma METHOD_NAMES_length: "length METHOD_NAMES = 26"
  by (simp add: METHOD_NAMES_def)

lemma METHOD_NAMES_first: "METHOD_NAMES ! 0 = ascii ''JVInit''"
  by (simp add: METHOD_NAMES_def)

lemma METHOD_NAMES_distinct: "distinct METHOD_NAMES"
  by (simp add: METHOD_NAMES_def ascii_def)

lemma indices_from_length:
  "length (filter (\<lambda>(idx, v). v = x) (enumerate n xs)) = count_list xs x"
  by (induction xs arbitrary: n) auto

lemma indices_from_none:
  "x \<notin> set pre \<Longrightarrow>
   filter (\<lambda>(idx, v). v = x) (enumerate n (pre @ x # post))
     = (n + length pre, x) # filter (\<lambda>(idx, v). v = x) (enumerate (Suc (n + length pre)) post)"
  by (induction pre arbitrary: n) auto

lemma indices_from_second:
  "count_list pre x = 1 \<Longrightarrow>
   map fst (filter (\<lambda>(idx, v). v = x) (enumerate n (pre @ x # post))) ! 1 = n + length pre"
proof (induction pre arbitrary: n)
  case Nil
  then show ?case by simp
next
  case (Cons p ps)
  show ?case
  proof (cases "p = x")
    case True
    then have "count_list ps x = 0" using Cons.prems by simp
    then have "x \<notin> set ps" by (simp add: count_list_0_iff)
    then show ?thesis using True by (simp add: indices_from_none)
  next
    case False
    then have "count_list ps x = 1" using Cons.prems by simp
    then show ?thesis using False Cons.IH[of "Suc n"] by simp
  qed
qed

lemma detail_section_fail:
  "count_list merged (ascii ''JVInit'') < 2 \<Longrightarrow>
   detail_section merged = Inl Unable_to_locate_method_detail_section"
  by (simp add: detail_section_def indices_def indices_from_length)

lemma detail_section_anchor:
  assumes "count_list pre (ascii ''JVInit'') = 1"
  shows "detail_section (pre @ ascii ''JVInit'' # post) = Inr (ascii ''JVInit'' # post)"
proof -
  have "length (indices (pre @ ascii ''JVInit'' # post)) = count_list (pre @ ascii ''JVInit'' # post) (ascii ''JVInit'')"
    by (simp add: indices_def indices_from_length)
  also have "\<dots> \<ge> 2" using assms by simp
  finally have ge: "\<not> length (indices (pre @ ascii ''JVInit'' # post)) < 2" by simp
  have "indices (pre @ ascii ''JVInit'' # post) ! 1 = length pre"
    unfolding indices_def using indices_from_second[OF assms, where n = 0 and post = post] by simp
  then show ?thesis using ge by (simp add: detail_section_def)
qed

lemma count_list_split:
  "2 \<le> count_list xs x \<Longrightarrow> \<exists>pre post. xs = pre @ x # post \<and> count_list pre x = 1"
proof (induction xs)
  case Nil
  then show ?case by simp
next
  case (Cons a xs)
  show ?case
  proof (cases "a = x")
    case True
    then have "1 \<le> count_list xs x" using Cons.prems by simp
    then have "x \<in> set xs" by (metis count_list_0_iff not_one_le_zero)
    then obtain ys zs where yz: "xs = ys @ x # zs" "x \<notin> set ys" by (meson split_list_first)
    then have "a # xs = (a # ys) @ x # zs \<and> count_list (a # ys) x = 1"
      using True by (simp add: count_list_0_iff)
    then show ?thesis by blast
  next
    case False
    then obtain pre post where "xs = pre @ x # post" "count_list pre x = 1"
      using Cons by auto
    then have "a # xs = (a # pre) @ x # post \<and> count_list (a # pre) x = 1"
      using False by simp
    then show ?thesis by blast
  qed
qed

lemma scan_from_anchor:
  "\<exists>k. 1 \<le> k \<and> names_upto (fst (scan (ascii ''JVInit'' # post) [] None 0))
        (snd (scan (ascii ''JVInit'' # post) [] None 0)) k"
proof -
  define rest' where "rest' = dropWhile (\<lambda>l. l = []) post"
  have nu: "\<And>s. names_upto [] (Some \<lparr>name = ascii ''JVInit'', summary = s, sections = []\<rparr>) (Suc 0)"
    by (simp add: names_upto_def finish_def METHOD_NAMES_length take_Suc_conv_app_nth METHOD_NAMES_first)
  have "\<exists>s ls. scan (ascii ''JVInit'' # post) [] None 0
      = scan ls [] (Some \<lparr>name = ascii ''JVInit'', summary = s, sections = []\<rparr>) (Suc 0)"
    by (simp add: METHOD_NAMES_length METHOD_NAMES_first Let_def) blast
  then obtain s ls where e: "scan (ascii ''JVInit'' # post) [] None 0
      = scan ls [] (Some \<lparr>name = ascii ''JVInit'', summary = s, sections = []\<rparr>) (Suc 0)" by blast
  show ?thesis unfolding e using scan_names[where ls = ls, OF nu[of s]] by auto
qed

lemma segment_methods_names:
  assumes "segment_methods merged = Inr ms"
  shows "\<exists>k. 1 \<le> k \<and> k \<le> length METHOD_NAMES \<and> map name ms = take k METHOD_NAMES"
proof -
  have "\<not> count_list merged (ascii ''JVInit'') < 2"
    using assms detail_section_fail[where merged = merged] by (auto simp: segment_methods_def)
  then obtain pre post where m: "merged = pre @ ascii ''JVInit'' # post"
    and c: "count_list pre (ascii ''JVInit'') = 1"
    using count_list_split[where x = "ascii ''JVInit''" and xs = merged] by auto
  have "ms = finish (scan (ascii ''JVInit'' # post) [] None 0)"
    using assms unfolding m segment_methods_def detail_section_anchor[OF c] by simp
  then show ?thesis using scan_from_anchor[of post] by (auto simp: names_upto_def)
qed


lemma METHOD_NAMES_nonempty: "\<forall>n \<in> set METHOD_NAMES. n \<noteq> []"
  by (simp add: METHOD_NAMES_def ascii_def)

lemma scan_consecutive_names:
  "ls = take n (drop k METHOD_NAMES) \<Longrightarrow>
   finish (scan ls ms cur k)
     = finish (ms, cur) @ map (\<lambda>nm. \<lparr>name = nm, summary = [], sections = []\<rparr>) ls"
proof (induction ls arbitrary: n k ms cur)
  case Nil
  then show ?case by simp
next
  case (Cons line rest)
  have ne: "take n (drop k METHOD_NAMES) \<noteq> []"
    using Cons.prems by (metis list.distinct(1))
  have k: "k < length METHOD_NAMES" using ne by (cases "k < length METHOD_NAMES") auto
  have n: "0 < n" using ne by (cases n) auto
  have dk: "drop k METHOD_NAMES = METHOD_NAMES ! k # drop (Suc k) METHOD_NAMES"
    using k by (simp add: Cons_nth_drop_Suc)
  obtain n' where n': "n = Suc n'" using n by (cases n) auto
  have line: "line = METHOD_NAMES ! k" and rest: "rest = take n' (drop (Suc k) METHOD_NAMES)"
    using Cons.prems unfolding dk n' by simp_all
  have sub: "set rest \<subseteq> set METHOD_NAMES"
    unfolding rest by (meson in_set_dropD in_set_takeD subsetI)
  have dw: "dropWhile (\<lambda>l. l = []) rest = rest"
  proof (cases rest)
    case Nil
    then show ?thesis by simp
  next
    case (Cons r rs)
    then have "r \<noteq> []" using sub METHOD_NAMES_nonempty by auto
    then show ?thesis using Cons by simp
  qed
  have nosum: "\<not> (rest \<noteq> [] \<and> hd rest \<notin> method_set \<and> \<not> startswith (hd rest) [12304])"
    using sub by (cases rest) (auto simp: method_set_def)
  define ms' where "ms' = (case cur of None \<Rightarrow> ms | Some c \<Rightarrow> ms @ [c])"
  have step: "scan (line # rest) ms cur k
      = scan rest ms' (Some \<lparr>name = line, summary = [], sections = []\<rparr>) (Suc k)"
    using k line nosum by (auto simp add: dw ms'_def Let_def)
  have fin: "finish (ms', Some \<lparr>name = line, summary = [], sections = []\<rparr>)
      = finish (ms, cur) @ [\<lparr>name = line, summary = [], sections = []\<rparr>]"
    by (simp add: finish_def ms'_def split: option.splits)
  show ?case
    unfolding step using Cons.IH[OF rest, of ms' "Some \<lparr>name = line, summary = [], sections = []\<rparr>"]
    by (simp add: fin)
qed

lemma segment_consecutive_names:
  assumes "0 < n"
  shows "segment_methods (ascii ''JVInit'' # take n METHOD_NAMES)
     = Inr (map (\<lambda>nm. \<lparr>name = nm, summary = [], sections = []\<rparr>) (take n METHOD_NAMES))"
proof -
  obtain n' where n': "n = Suc n'" using assms by (cases n) auto
  have t: "take n METHOD_NAMES = ascii ''JVInit'' # take n' (drop 1 METHOD_NAMES)"
    unfolding n' by (simp add: METHOD_NAMES_def)
  have c: "count_list [ascii ''JVInit''] (ascii ''JVInit'') = 1" by simp
  have d: "detail_section (ascii ''JVInit'' # take n METHOD_NAMES) = Inr (take n METHOD_NAMES)"
    unfolding t using detail_section_anchor[OF c, of "take n' (drop 1 METHOD_NAMES)"] by simp
  have "finish (scan (take n METHOD_NAMES) [] None 0)
      = finish ([], None) @ map (\<lambda>nm. \<lparr>name = nm, summary = [], sections = []\<rparr>) (take n METHOD_NAMES)"
    by (rule scan_consecutive_names[of _ n 0]) simp
  then show ?thesis by (simp add: segment_methods_def d finish_def)
qed

lemma merge_fragments_names: "set ls \<subseteq> method_set \<Longrightarrow> merge_fragments ls = ls"
  by (induction ls rule: merge_fragments.induct) (auto simp: Let_def)

text \<open>
  C7. The detail section starts at the second occurrence of \<open>JVInit\<close> in the merged
  lines. With fewer than two occurrences the segmenter (and with it \<open>parse_methods\<close>)
  fails with the error of the missing detail section. With a second occurrence, the methods
  are the result of the scan over the lines from that occurrence on, so they do not depend
  on the lines before it: two line lists that agree from the second occurrence on give the
  same methods.
\<close>

theorem segmenter_anchor:
  "(count_list merged (ascii ''JVInit'') < 2
      \<longrightarrow> segment_methods merged = Inl Unable_to_locate_method_detail_section)
   \<and> (count_list (merge_fragments processed) (ascii ''JVInit'') < 2
      \<longrightarrow> parse_methods processed = Inl Unable_to_locate_method_detail_section)
   \<and> (\<forall>pre post. merged = pre @ ascii ''JVInit'' # post \<and> count_list pre (ascii ''JVInit'') = 1
      \<longrightarrow> segment_methods merged = Inr (finish (scan (ascii ''JVInit'' # post) [] None 0)))
   \<and> (\<forall>pre pre' post.
        count_list pre (ascii ''JVInit'') = 1 \<and> count_list pre' (ascii ''JVInit'') = 1
      \<longrightarrow> segment_methods (pre @ ascii ''JVInit'' # post)
          = segment_methods (pre' @ ascii ''JVInit'' # post))"
proof -
  have a: "segment_methods m = Inl Unable_to_locate_method_detail_section"
    if "count_list m (ascii ''JVInit'') < 2" for m
    using that by (simp add: segment_methods_def detail_section_fail)
  have b: "segment_methods (pre @ ascii ''JVInit'' # post)
      = Inr (finish (scan (ascii ''JVInit'' # post) [] None 0))"
    if "count_list pre (ascii ''JVInit'') = 1" for pre post
    using that by (simp add: segment_methods_def detail_section_anchor)
  show ?thesis using a b by (auto simp: parse_methods_def)
qed

theorem segmenter_anchor_witness:
  "segment_methods [ascii ''JVInit'', ascii ''x''] = Inl Unable_to_locate_method_detail_section
   \<and> parse_methods [ascii ''JVInit'', ascii ''x''] = Inl Unable_to_locate_method_detail_section
   \<and> segment_methods [ascii ''JVInit'', ascii ''x'', ascii ''JVInit'', ascii ''sum'']
       = Inr [\<lparr>name = ascii ''JVInit'', summary = ascii ''sum'', sections = []\<rparr>]
   \<and> segment_methods [ascii ''JVInit'', ascii ''x'', ascii ''JVInit'', ascii ''sum'']
       = segment_methods [ascii ''y'', ascii ''JVInit'', ascii ''JVInit'', ascii ''sum'']"
proof -
  note t = segmenter_anchor[of "[ascii ''JVInit'', ascii ''x'']" "[ascii ''JVInit'', ascii ''x'']"]
  note u = segmenter_anchor[of "[ascii ''JVInit'', ascii ''x'', ascii ''JVInit'', ascii ''sum'']" "[]"]
  have mf: "merge_fragments [ascii ''JVInit'', ascii ''x''] = [ascii ''JVInit'', ascii ''x'']"
    by (simp add: method_set_def METHOD_NAMES_def ascii_def strip_def isspace_def)
  have c1: "count_list [ascii ''JVInit'', ascii ''x''] (ascii ''JVInit'') < 2"
    by (simp add: ascii_def)
  have c2: "count_list [ascii ''JVInit'', ascii ''x''] (ascii ''JVInit'') = 1"
    "count_list [ascii ''y'', ascii ''JVInit''] (ascii ''JVInit'') = 1"
    by (simp_all add: ascii_def)
  have sc: "finish (scan [ascii ''JVInit'', ascii ''sum''] [] None 0)
      = [\<lparr>name = ascii ''JVInit'', summary = ascii ''sum'', sections = []\<rparr>]"
    by (simp add: METHOD_NAMES_def ascii_def method_set_def startswith_def finish_def Let_def)
  have a: "segment_methods [ascii ''JVInit'', ascii ''x''] = Inl Unable_to_locate_method_detail_section"
    using t c1 by blast
  have b: "parse_methods [ascii ''JVInit'', ascii ''x''] = Inl Unable_to_locate_method_detail_section"
    using t c1 mf by simp
  have c: "segment_methods [ascii ''JVInit'', ascii ''x'', ascii ''JVInit'', ascii ''sum'']
       = Inr (finish (scan [ascii ''JVInit'', ascii ''sum''] [] None 0))"
    using u[THEN conjunct2, THEN conjunct2, THEN conjunct1, THEN spec, THEN spec,
        of "[ascii ''JVInit'', ascii ''x'']" "[ascii ''sum'']"] c2(1) by simp
  have d: "segment_methods ([ascii ''JVInit'', ascii ''x''] @ ascii ''JVInit'' # [ascii ''sum''])
       = segment_methods ([ascii ''y'', ascii ''JVInit''] @ ascii ''JVInit'' # [ascii ''sum''])"
    using u[THEN conjunct2, THEN conjunct2, THEN conjunct2, THEN spec, THEN spec, THEN spec,
        of "[ascii ''JVInit'', ascii ''x'']" "[ascii ''y'', ascii ''JVInit'']" "[ascii ''sum'']"] c2
    by blast
  show ?thesis using a b c d sc by simp
qed

text \<open>
  C8, as stated, fails in its count: the list of method names has 26 entries, all
  different, so the fixed set has 26 members, not 25.
\<close>

theorem method_set_has_26_names:
  "length METHOD_NAMES = 26 \<and> distinct METHOD_NAMES \<and> card method_set \<noteq> 25"
  using METHOD_NAMES_distinct METHOD_NAMES_length
  by (simp add: method_set_def distinct_card)

text \<open>
  C8, amended. Every method the segmenter produces bears a name of the fixed method-name
  set, and that set has exactly 26 members.
\<close>

theorem segmenter_names_in_method_set:
  assumes "segment_methods merged = Inr ms"
  shows "(\<forall>m \<in> set ms. name m \<in> method_set) \<and> card method_set = 26"
proof -
  from segment_methods_names[OF assms] obtain k where
    k: "map name ms = take k METHOD_NAMES" by blast
  have "name ` set ms = set (map name ms)" by simp
  also have "\<dots> \<subseteq> set METHOD_NAMES" unfolding k by (auto dest: in_set_takeD)
  finally have "\<forall>m \<in> set ms. name m \<in> method_set" by (auto simp: method_set_def)
  moreover have "card method_set = 26"
    unfolding method_set_def using METHOD_NAMES_distinct METHOD_NAMES_length
    by (simp add: distinct_card)
  ultimately show ?thesis by simp
qed

theorem segmenter_names_in_method_set_witness:
  "segment_methods [ascii ''JVInit'', ascii ''x'', ascii ''JVInit'', ascii ''sum'', ascii ''JVSetUIProperties'']
     = Inr [\<lparr>name = ascii ''JVInit'', summary = ascii ''sum'', sections = []\<rparr>,
            \<lparr>name = ascii ''JVSetUIProperties'', summary = [], sections = []\<rparr>]
   \<and> ascii ''JVInit'' \<in> method_set \<and> ascii ''JVSetUIProperties'' \<in> method_set
   \<and> card method_set = 26"
proof -
  have e: "segment_methods [ascii ''JVInit'', ascii ''x'', ascii ''JVInit'', ascii ''sum'', ascii ''JVSetUIProperties'']
     = Inr [\<lparr>name = ascii ''JVInit'', summary = ascii ''sum'', sections = []\<rparr>,
            \<lparr>name = ascii ''JVSetUIProperties'', summary = [], sections = []\<rparr>]"
    by (simp add: segment_methods_def detail_section_def indices_def METHOD_NAMES_def ascii_def
        method_set_def startswith_def finish_def Let_def)
  show ?thesis using segmenter_names_in_method_set[OF e] e by simp
qed

section \<open>Method sections: the grouper\<close>

lemma method_lookup_fold:
  "foldl (\<lambda>d m. d(name m \<mapsto> m)) d0 ms nm = None \<longleftrightarrow> d0 nm = None \<and> nm \<notin> name ` set ms"
  by (induction ms arbitrary: d0) auto

lemma method_lookup_None: "method_lookup ms nm = None \<longleftrightarrow> nm \<notin> name ` set ms"
  by (simp add: method_lookup_def method_lookup_fold)

lemma pair_step_present:
  "p \<in> dom lookup \<Longrightarrow> s \<in> dom lookup \<Longrightarrow>
   \<exists>g. pair_step lookup (acc, G) (p, s) = (acc @ [g], insert s (insert p G))
       \<and> group_names g = [p, s] \<and> title g = p @ ascii '' / '' @ s"
  by (auto simp: pair_step_def group_names_def)

lemma pair_step_absent:
  "\<not> (p \<in> dom lookup \<and> s \<in> dom lookup) \<Longrightarrow> pair_step lookup (acc, G) (p, s) = (acc, G)"
  by (auto simp: pair_step_def domIff split: option.splits)

lemma pairs_fold:
  "\<exists>gs'. foldl (pair_step lookup) (acc, G) gs
        = (acc @ gs',
           G \<union> fst ` set (filter (\<lambda>(p, s). p \<in> dom lookup \<and> s \<in> dom lookup) gs)
             \<union> snd ` set (filter (\<lambda>(p, s). p \<in> dom lookup \<and> s \<in> dom lookup) gs))
      \<and> map group_names gs'
          = map (\<lambda>(p, s). [p, s]) (filter (\<lambda>(p, s). p \<in> dom lookup \<and> s \<in> dom lookup) gs)
      \<and> map title gs'
          = map (\<lambda>(p, s). p @ ascii '' / '' @ s)
              (filter (\<lambda>(p, s). p \<in> dom lookup \<and> s \<in> dom lookup) gs)"
proof (induction gs arbitrary: acc G)
  case Nil
  then show ?case by simp
next
  case (Cons pr gs)
  obtain p s where pr: "pr = (p, s)" by (cases pr)
  let ?f = "filter (\<lambda>(p, s). p \<in> dom lookup \<and> s \<in> dom lookup) gs"
  show ?case
  proof (cases "p \<in> dom lookup \<and> s \<in> dom lookup")
    case True
    then obtain g where g: "pair_step lookup (acc, G) (p, s) = (acc @ [g], insert s (insert p G))"
      "group_names g = [p, s]" "title g = p @ ascii '' / '' @ s"
      using pair_step_present[of p lookup s acc G] by blast
    from Cons.IH[of "acc @ [g]" "insert s (insert p G)"] obtain gs' where
      ih: "foldl (pair_step lookup) (acc @ [g], insert s (insert p G)) gs
        = ((acc @ [g]) @ gs', insert s (insert p G) \<union> fst ` set ?f \<union> snd ` set ?f)"
      "map group_names gs' = map (\<lambda>(p, s). [p, s]) ?f"
      "map title gs' = map (\<lambda>(p, s). p @ ascii '' / '' @ s) ?f"
      by blast
    have f: "filter (\<lambda>(p, s). p \<in> dom lookup \<and> s \<in> dom lookup) (pr # gs) = (p, s) # ?f"
      using True by (simp add: pr)
    have "foldl (pair_step lookup) (acc, G) (pr # gs)
        = (acc @ (g # gs'), G \<union> fst ` set ((p, s) # ?f) \<union> snd ` set ((p, s) # ?f))"
      using g(1) ih(1) by (auto simp: pr)
    moreover have "map group_names (g # gs') = map (\<lambda>(p, s). [p, s]) ((p, s) # ?f)"
      using g(2) ih(2) by simp
    moreover have "map title (g # gs') = map (\<lambda>(p, s). p @ ascii '' / '' @ s) ((p, s) # ?f)"
      using g(3) ih(3) by simp
    ultimately show ?thesis unfolding f by blast
  next
    case False
    then have st: "pair_step lookup (acc, G) (p, s) = (acc, G)"
      by (rule pair_step_absent)
    have f: "filter (\<lambda>(p, s). p \<in> dom lookup \<and> s \<in> dom lookup) (pr # gs) = ?f"
      using False by (simp add: pr)
    have "foldl (pair_step lookup) (acc, G) (pr # gs) = foldl (pair_step lookup) (acc, G) gs"
      using st by (simp add: pr)
    then show ?thesis unfolding f using Cons.IH[of acc G] by simp
  qed
qed

lemma singles_fold:
  "\<exists>gs'. foldl (single_step lookup G) acc ns = acc @ gs'
      \<and> map group_names gs' = map (\<lambda>n. [n]) (filter (\<lambda>n. n \<notin> G \<and> n \<in> dom lookup) ns)
      \<and> map title gs' = filter (\<lambda>n. n \<notin> G \<and> n \<in> dom lookup) ns"
proof (induction ns arbitrary: acc)
  case Nil
  then show ?case by simp
next
  case (Cons n ns)
  let ?f = "filter (\<lambda>n. n \<notin> G \<and> n \<in> dom lookup) ns"
  show ?case
  proof (cases "n \<notin> G \<and> n \<in> dom lookup")
    case True
    then obtain info where info: "lookup n = Some info" by auto
    define g where "g = \<lparr>title = n,
                    group_members =
                      [\<lparr>member_name = n,
                         member_summary = py_or (summary info) (ascii ''See details below.'')\<rparr>],
                    group_sections = map_of (sections info)\<rparr>"
    have nG: "n \<notin> G" using True by blast
    have st: "single_step lookup G acc n = acc @ [g]"
      unfolding single_step_def g_def by (simp add: nG info)
    have gn: "group_names g = [n]" "title g = n" by (simp_all add: g_def group_names_def)
    from Cons.IH[of "acc @ [g]"] obtain gs' where
      ih: "foldl (single_step lookup G) (acc @ [g]) ns = (acc @ [g]) @ gs'
       \<and> map group_names gs' = map (\<lambda>n. [n]) ?f
       \<and> map title gs' = ?f" ..
    have f: "filter (\<lambda>n. n \<notin> G \<and> n \<in> dom lookup) (n # ns) = n # ?f"
      using True by simp
    have "foldl (single_step lookup G) acc (n # ns) = acc @ (g # gs')
       \<and> map group_names (g # gs') = map (\<lambda>n. [n]) (n # ?f)
       \<and> map title (g # gs') = n # ?f"
      using st ih gn by simp
    then show ?thesis unfolding f by (rule exI)
  next
    case False
    then have "n \<in> G \<or> lookup n = None" by (simp add: domIff)
    then have st: "single_step lookup G acc n = acc"
      unfolding single_step_def by (cases "n \<in> G") simp_all
    have f: "filter (\<lambda>n. n \<notin> G \<and> n \<in> dom lookup) (n # ns) = ?f"
      using False by simp
    have "foldl (single_step lookup G) acc (n # ns) = foldl (single_step lookup G) acc ns"
      using st by simp
    then show ?thesis unfolding f using Cons.IH[of acc] by simp
  qed
qed

lemma method_lookup_dom: "dom (method_lookup ms) = name ` set ms"
  by (simp add: dom_def method_lookup_None)


lemma group_methods_shape:
  "\<exists>ps ss. group_methods ms = ps @ ss
     \<and> map group_names ps
         = map (\<lambda>(p, s). [p, s])
             (filter (\<lambda>(p, s). p \<in> name ` set ms \<and> s \<in> name ` set ms) grouping)
     \<and> map title ps
         = map (\<lambda>(p, s). p @ ascii '' / '' @ s)
             (filter (\<lambda>(p, s). p \<in> name ` set ms \<and> s \<in> name ` set ms) grouping)
     \<and> map group_names ss
         = map (\<lambda>n. [n])
             (filter (\<lambda>n. n \<notin> fst ` set (filter (\<lambda>(p, s). p \<in> name ` set ms \<and> s \<in> name ` set ms) grouping)
                            \<union> snd ` set (filter (\<lambda>(p, s). p \<in> name ` set ms \<and> s \<in> name ` set ms) grouping)
                        \<and> n \<in> name ` set ms) METHOD_NAMES)
     \<and> map title ss
         = filter (\<lambda>n. n \<notin> fst ` set (filter (\<lambda>(p, s). p \<in> name ` set ms \<and> s \<in> name ` set ms) grouping)
                            \<union> snd ` set (filter (\<lambda>(p, s). p \<in> name ` set ms \<and> s \<in> name ` set ms) grouping)
                        \<and> n \<in> name ` set ms) METHOD_NAMES"
proof -
  let ?lookup = "method_lookup ms"
  let ?present = "filter (\<lambda>(p, s). p \<in> dom ?lookup \<and> s \<in> dom ?lookup) grouping"
  let ?G = "fst ` set ?present \<union> snd ` set ?present"
  from pairs_fold[of ?lookup "[]" "{}" grouping] obtain ps where
    ps: "foldl (pair_step ?lookup) ([], {}) grouping = ([] @ ps, {} \<union> fst ` set ?present \<union> snd ` set ?present)
      \<and> map group_names ps = map (\<lambda>(p, s). [p, s]) ?present
      \<and> map title ps = map (\<lambda>(p, s). p @ ascii '' / '' @ s) ?present" ..
  from singles_fold[of ?lookup ?G ps METHOD_NAMES] obtain ss where
    ss: "foldl (single_step ?lookup ?G) ps METHOD_NAMES = ps @ ss
      \<and> map group_names ss = map (\<lambda>n. [n]) (filter (\<lambda>n. n \<notin> ?G \<and> n \<in> dom ?lookup) METHOD_NAMES)
      \<and> map title ss = filter (\<lambda>n. n \<notin> ?G \<and> n \<in> dom ?lookup) METHOD_NAMES" ..
  have gm: "group_methods ms = ps @ ss"
    using ps ss by (simp add: group_methods_def Let_def)
  have "group_methods ms = ps @ ss
     \<and> map group_names ps = map (\<lambda>(p, s). [p, s]) ?present
     \<and> map title ps = map (\<lambda>(p, s). p @ ascii '' / '' @ s) ?present
     \<and> map group_names ss = map (\<lambda>n. [n]) (filter (\<lambda>n. n \<notin> ?G \<and> n \<in> dom ?lookup) METHOD_NAMES)
     \<and> map title ss = filter (\<lambda>n. n \<notin> ?G \<and> n \<in> dom ?lookup) METHOD_NAMES"
    using gm ps ss by simp
  then have "\<exists>ps ss. group_methods ms = ps @ ss
     \<and> map group_names ps = map (\<lambda>(p, s). [p, s]) ?present
     \<and> map title ps = map (\<lambda>(p, s). p @ ascii '' / '' @ s) ?present
     \<and> map group_names ss = map (\<lambda>n. [n]) (filter (\<lambda>n. n \<notin> ?G \<and> n \<in> dom ?lookup) METHOD_NAMES)
     \<and> map title ss = filter (\<lambda>n. n \<notin> ?G \<and> n \<in> dom ?lookup) METHOD_NAMES"
    by (intro exI)
  then show ?thesis unfolding method_lookup_dom .
qed

lemma distinct_concat_filter:
  "distinct (concat (map f xs)) \<Longrightarrow> distinct (concat (map f (filter P xs)))"
  by (induction xs) auto

lemma grouping_names_distinct: "distinct (concat (map (\<lambda>(p, s). [p, s]) grouping))"
  by (simp add: grouping_def ascii_def)

lemma set_concat_pairs:
  "set (concat (map (\<lambda>(p, s). [p, s]) xs)) = fst ` set xs \<union> snd ` set xs"
  by (induction xs) auto


lemma present_pairs_18:
  "filter (\<lambda>(p, s). p \<in> set (take 18 METHOD_NAMES) \<and> s \<in> set (take 18 METHOD_NAMES)) grouping
     = [(ascii ''JVMVCheck'', ascii ''JVMVCheckWithType'')]"
  by (simp add: grouping_def METHOD_NAMES_def ascii_def)

lemma singles_18:
  "filter (\<lambda>n. n \<notin> fst ` set [(ascii ''JVMVCheck'', ascii ''JVMVCheckWithType'')]
                   \<union> snd ` set [(ascii ''JVMVCheck'', ascii ''JVMVCheckWithType'')]
               \<and> n \<in> set (take 18 METHOD_NAMES)) METHOD_NAMES
     = take 16 METHOD_NAMES"
  by (simp add: METHOD_NAMES_def ascii_def)

lemma names_18:
  "name ` set (map (\<lambda>nm. \<lparr>name = nm, summary = [], sections = []\<rparr>) (take 18 METHOD_NAMES))
     = set (take 18 METHOD_NAMES)"
  by (simp add: image_image)

lemma parse_methods_18:
  "parse_methods (ascii ''JVInit'' # take 18 METHOD_NAMES)
     = Inr (group_methods
         (map (\<lambda>nm. \<lparr>name = nm, summary = [], sections = []\<rparr>) (take 18 METHOD_NAMES)))"
proof -
  have "set (ascii ''JVInit'' # take 18 METHOD_NAMES) \<subseteq> method_set"
    using METHOD_NAMES_first METHOD_NAMES_length
    by (auto simp: method_set_def dest: in_set_takeD) (metis nth_mem zero_less_numeral)
  then have "merge_fragments (ascii ''JVInit'' # take 18 METHOD_NAMES)
      = ascii ''JVInit'' # take 18 METHOD_NAMES"
    by (rule merge_fragments_names)
  then show ?thesis by (simp add: parse_methods_def segment_consecutive_names)
qed

lemma not_sorted_start: "b < a \<Longrightarrow> \<not> sorted (a # b # xs)" for a b :: nat
  by simp

text \<open>
  C2, as stated, fails: the merged pairs are emitted before all singleton groups, not at
  the declared position of their primary member. For the lines \<open>JVInit\<close> followed by the first
  18 method names, the first group is the pair of \<open>JVMVCheck\<close> (declared 17th) and the
  group of \<open>JVInit\<close> (declared first) comes after it.
\<close>

theorem grouper_pairs_come_first:
  "map_sum id (map title) (parse_methods (ascii ''JVInit'' # take 18 METHOD_NAMES))
     = Inr (ascii ''JVMVCheck / JVMVCheckWithType'' # take 16 METHOD_NAMES)
   \<and> map_sum id spec_declared_order (parse_methods (ascii ''JVInit'' # take 18 METHOD_NAMES))
     = Inr False"
proof -
  define ms where
    "ms = map (\<lambda>nm. \<lparr>name = nm, summary = [], sections = []\<rparr>) (take 18 METHOD_NAMES)"
  note shape = group_methods_shape[of ms, unfolded ms_def names_18 present_pairs_18 singles_18,
      folded ms_def]
  from shape obtain ps where "\<exists>ss. group_methods ms = ps @ ss
      \<and> map group_names ps = map (\<lambda>(p, s). [p, s]) [(ascii ''JVMVCheck'', ascii ''JVMVCheckWithType'')]
      \<and> map title ps = map (\<lambda>(p, s). p @ ascii '' / '' @ s) [(ascii ''JVMVCheck'', ascii ''JVMVCheckWithType'')]
      \<and> map group_names ss = map (\<lambda>n. [n]) (take 16 METHOD_NAMES)
      \<and> map title ss = take 16 METHOD_NAMES" ..
  then obtain ss where sh0: "group_methods ms = ps @ ss
      \<and> map group_names ps = map (\<lambda>(p, s). [p, s]) [(ascii ''JVMVCheck'', ascii ''JVMVCheckWithType'')]
      \<and> map title ps = map (\<lambda>(p, s). p @ ascii '' / '' @ s) [(ascii ''JVMVCheck'', ascii ''JVMVCheckWithType'')]
      \<and> map group_names ss = map (\<lambda>n. [n]) (take 16 METHOD_NAMES)
      \<and> map title ss = take 16 METHOD_NAMES" ..
  have sh: "group_methods ms = ps @ ss"
      "map group_names ps = [[ascii ''JVMVCheck'', ascii ''JVMVCheckWithType'']]"
      "map title ps = [ascii ''JVMVCheck'' @ ascii '' / '' @ ascii ''JVMVCheckWithType'']"
      "map group_names ss = map (\<lambda>n. [n]) (take 16 METHOD_NAMES)"
      "map title ss = take 16 METHOD_NAMES"
    using sh0 by simp_all
  have titles: "map title (group_methods ms)
      = ascii ''JVMVCheck / JVMVCheckWithType'' # take 16 METHOD_NAMES"
    using sh by (simp add: ascii_def)
  have "map (\<lambda>g. declared_position (case group_names g of [] \<Rightarrow> [] | p # _ \<Rightarrow> p)) (group_methods ms)
      = map (\<lambda>ns. declared_position (case ns of [] \<Rightarrow> [] | p # _ \<Rightarrow> p))
          (map group_names (group_methods ms))"
    by (simp add: comp_def)
  also have "\<dots> = declared_position (ascii ''JVMVCheck'')
      # map (\<lambda>ns. declared_position (case ns of [] \<Rightarrow> [] | p # _ \<Rightarrow> p))
          (map (\<lambda>n. [n]) (take 16 METHOD_NAMES))"
    using sh by simp
  also have "\<dots> = 16 # 0 # map declared_position (take 15 (drop 1 METHOD_NAMES))"
    by (simp add: declared_position_def METHOD_NAMES_def ascii_def comp_def)
  finally have "\<not> spec_declared_order (group_methods ms)"
    unfolding spec_declared_order_def by (simp only: not_sorted_start zero_less_numeral not_False_eq_True)
  then show ?thesis using titles unfolding parse_methods_18 ms_def[symmetric] by simp
qed

text \<open>
  C2, amended. For every method list the segmenter produces, with \<open>N\<close> the names found:
  the grouper emits first one merged group per pair of the grouping list whose two members
  are both in \<open>N\<close>, in the order of that list, titled \<open>primary / secondary\<close> and holding the
  two members; then, in the declared method-name order, one singleton group per name of
  \<open>N\<close> that is in no emitted pair. Every name of \<open>N\<close> is a member of exactly one group.
\<close>

theorem grouper_emission_order:
  assumes "segment_methods merged = Inr ms"
  shows "let N = name ` set ms;
             present = filter (\<lambda>(p, s). p \<in> N \<and> s \<in> N) grouping;
             G = fst ` set present \<union> snd ` set present;
             singles = filter (\<lambda>n. n \<notin> G \<and> n \<in> N) METHOD_NAMES
         in map group_names (group_methods ms)
              = map (\<lambda>(p, s). [p, s]) present @ map (\<lambda>n. [n]) singles
            \<and> map title (group_methods ms)
              = map (\<lambda>(p, s). p @ ascii '' / '' @ s) present @ singles
            \<and> distinct (concat (map group_names (group_methods ms)))
            \<and> set (concat (map group_names (group_methods ms))) = N"
proof -
  define N where "N = name ` set ms"
  define present where "present = filter (\<lambda>(p, s). p \<in> N \<and> s \<in> N) grouping"
  define G where "G = fst ` set present \<union> snd ` set present"
  define singles where "singles = filter (\<lambda>n. n \<notin> G \<and> n \<in> N) METHOD_NAMES"
  from group_methods_shape[of ms] obtain ps ss where
    sh: "group_methods ms = ps @ ss"
        "map group_names ps = map (\<lambda>(p, s). [p, s]) present"
        "map title ps = map (\<lambda>(p, s). p @ ascii '' / '' @ s) present"
        "map group_names ss = map (\<lambda>n. [n]) singles"
        "map title ss = singles"
    unfolding singles_def G_def present_def N_def by auto
  have names: "map group_names (group_methods ms)
              = map (\<lambda>(p, s). [p, s]) present @ map (\<lambda>n. [n]) singles"
    using sh by simp
  have titles: "map title (group_methods ms)
              = map (\<lambda>(p, s). p @ ascii '' / '' @ s) present @ singles"
    using sh by simp
  have cc: "concat (map group_names (group_methods ms))
      = concat (map (\<lambda>(p, s). [p, s]) present) @ singles"
    unfolding names by (simp add: concat_map_singleton comp_def)
  from segment_methods_names[OF assms] obtain k where
    k: "map name ms = take k METHOD_NAMES" by blast
  have "N = set (map name ms)" by (simp add: N_def)
  then have Nsub: "N \<subseteq> set METHOD_NAMES" unfolding k by (auto dest: in_set_takeD)
  have Gsub: "G \<subseteq> N" unfolding G_def present_def by auto
  have setp: "set (concat (map (\<lambda>(p, s). [p, s]) present)) = G"
    unfolding G_def by (rule set_concat_pairs)
  have d1: "distinct (concat (map (\<lambda>(p, s). [p, s]) present))"
    unfolding present_def using grouping_names_distinct by (rule distinct_concat_filter)
  have d2: "distinct singles" unfolding singles_def using METHOD_NAMES_distinct by simp
  have dj: "G \<inter> set singles = {}" unfolding singles_def by auto
  have dist: "distinct (concat (map group_names (group_methods ms)))"
    unfolding cc using d1 d2 dj setp by simp
  have ss: "set singles = N - G" unfolding singles_def using Nsub by auto
  have "set (concat (map group_names (group_methods ms))) = G \<union> set singles"
    unfolding cc by (simp only: set_append setp)
  also have "\<dots> = N" unfolding ss using Gsub by blast
  finally have sets: "set (concat (map group_names (group_methods ms))) = N" .
  show ?thesis
    unfolding Let_def N_def[symmetric] present_def[symmetric] G_def[symmetric] singles_def[symmetric]
    using names titles dist sets by simp
qed

theorem grouper_emission_order_witness:
  "segment_methods (ascii ''JVInit'' # take 18 METHOD_NAMES)
     = Inr (map (\<lambda>nm. \<lparr>name = nm, summary = [], sections = []\<rparr>) (take 18 METHOD_NAMES))
   \<and> map group_names (group_methods
         (map (\<lambda>nm. \<lparr>name = nm, summary = [], sections = []\<rparr>) (take 18 METHOD_NAMES)))
       = [ascii ''JVMVCheck'', ascii ''JVMVCheckWithType'']
         # map (\<lambda>n. [n]) (take 16 METHOD_NAMES)"
proof -
  have e: "segment_methods (ascii ''JVInit'' # take 18 METHOD_NAMES)
     = Inr (map (\<lambda>nm. \<lparr>name = nm, summary = [], sections = []\<rparr>) (take 18 METHOD_NAMES))"
    by (simp add: segment_consecutive_names)
  show ?thesis
    using grouper_emission_order[OF e, unfolded Let_def names_18 present_pairs_18 singles_18] e
    by simp
qed

end
